theory Spec2Isabelle
  imports Main
begin

section \<open>TaskMgr: a single-slot task queue with cancellation and sessions\<close>

text \<open>
  The development embeds \<^verbatim>\<open>src/TaskMgr.ts\<close> (class \<^verbatim>\<open>TaskMgr\<close>, the variant with
  \<^verbatim>\<open>_sessionId\<close> and \<^verbatim>\<open>_runningTasks\<close>). The class is stateful and its methods call
  caller-supplied closures, which may call back into the manager and may throw; the
  deferred results are JavaScript promises whose handlers run later. The embedding makes
  all of that explicit:

  \<^item> the fields of the object are the record \<open>TaskMgr\<close>; every method takes the
    state and returns the new one;
  \<^item> an exception is a value: a method that can let an exception escape returns
    \<open>val option \<times> world\<close>, with \<open>Some e\<close> for the exception \<open>e\<close> in flight;
  \<^item> the callable \<^verbatim>\<open>task()\<close> of an entry is a script: the calls it makes on the
    manager while it runs (\<^verbatim>\<open>cancelTask\<close>, \<^verbatim>\<open>clear\<close>, \<^verbatim>\<open>addTask\<close>), then how it
    ends (it returns a value, it throws, or it returns a promise);
  \<^item> a callback (\<^verbatim>\<open>resolve\<close>, \<^verbatim>\<open>reject\<close>, \<^verbatim>\<open>catch\<close>) is observed when it is called
    and either returns or throws; callbacks are not modelled as calling back into the
    manager;
  \<^item> what an outside observer sees (a callable starting, a callback called, a line on
    \<^verbatim>\<open>console.error\<close>) is appended to \<open>trace\<close>;
  \<^item> the handlers that \<^verbatim>\<open>handleAsyncTask\<close> registers on a promise are kept in
    \<open>chains\<close>; the environment decides when, and how, each promise settles.
\<close>

subsection \<open>Work items\<close>

type_synonym val = string

datatype outcome = Returns val | Raises val | Deferred

datatype callback = Callback (cb_raises: "val option")

datatype action = CallCancel nat | CallClear | CallAdd ITask
and callable = Callable (calls: "action list") (ending: outcome)
and ITask = ITask (task: callable) (taskDesc: string) (resolve: "callback option")
    (donotWaitAsync: "bool option") (reject: "callback option") (catch: "callback option")

text \<open>\<^verbatim>\<open>type TaskInfo = ITask & { id: number }\<close>; the field \<^verbatim>\<open>id\<close> is \<open>id'\<close> here.\<close>

record TaskInfo =
  id' :: nat
  item :: ITask

subsection \<open>What is observed\<close>

text \<open>
  The three messages of \<^verbatim>\<open>console.error\<close>: a synchronous exception nobody caught
  (in \<^verbatim>\<open>handleFunctionTask\<close>), a rejected promise nobody handled (the rejection handler
  of \<^verbatim>\<open>handleAsyncTask\<close>) and an exception thrown inside a promise handler (the
  trailing \<^verbatim>\<open>.catch\<close>). Each carries the description of the item.
\<close>

datatype diag = SyncUncaught | PromiseUncaught | HandlerUncaught

datatype event =
    Started nat string
  | Resolved nat val
  | Rejected nat val
  | Caught nat val
  | ConsoleError diag string val

subsection \<open>The state\<close>

text \<open>
  A registered promise chain \<^verbatim>\<open>promise.then(f, r).catch(c)\<close>: the entry, the session
  captured when the entry was started, and how far the chain has run. \<open>Pending\<close>: the
  promise has not settled. \<open>Thrown e\<close>: the \<^verbatim>\<open>then\<close> handler threw \<open>e\<close> and the
  \<^verbatim>\<open>.catch\<close> handler is due. \<open>Done\<close>: nothing is left to run.
\<close>

datatype stage = Pending | Thrown val | Done

record chain =
  ch_task :: TaskInfo
  ch_session :: nat
  ch_stage :: stage

text \<open>
  The private fields of the class, with the leading underscore dropped. JavaScript
  numbers are doubles, exact on integers below \<open>2 ^ 53\<close>; the counters \<open>nextId\<close> and
  \<open>sessionId\<close> are natural numbers here, which is the same as long as fewer than
  \<open>2 ^ 53\<close> entries are added and sessions cleared. The 32-bit arithmetic of the
  identifier is written out in \<open>mk_id\<close>.
\<close>

record TaskMgr =
  nextId :: nat
  running :: bool
  runningTasks :: "nat \<rightharpoonup> TaskInfo"
  taskCancelSet :: "nat set"
  sessionId :: nat
  tasks :: "TaskInfo list"

record world = TaskMgr +
  chains :: "chain list"
  trace :: "event list"

text \<open>\<^verbatim>\<open>TaskMgr.create()\<close>: the field initialisers of the class.\<close>

definition create :: world where
  "create = \<lparr>nextId = 1, running = False, runningTasks = Map.empty, taskCancelSet = {},
     sessionId = 0, tasks = [], chains = [], trace = []\<rparr>"

subsection \<open>The methods\<close>

text \<open>
  \<^verbatim>\<open>(this._nextId++ << this._sessionId) >>> 0\<close>. The operator \<^verbatim>\<open><<\<close> takes its left
  operand modulo \<open>2 ^ 32\<close>, uses the low five bits of the shift count and keeps 32 bits
  of the result; \<^verbatim>\<open>>>> 0\<close> reads these 32 bits as an unsigned number.
\<close>

definition mk_id :: "nat \<Rightarrow> nat \<Rightarrow> nat" where
  "mk_id n s = (n * 2 ^ (s mod 32)) mod 2 ^ 32"

definition cancelTask :: "nat \<Rightarrow> world \<Rightarrow> world" where
  "cancelTask i w = w\<lparr>taskCancelSet := insert i (taskCancelSet w)\<rparr>"

definition clear :: "world \<Rightarrow> world" where
  "clear w = w\<lparr>sessionId := sessionId w + 1, tasks := [], taskCancelSet := {},
     running := False, runningTasks := Map.empty\<rparr>"

definition checkAndClearCanceled :: "nat \<Rightarrow> world \<Rightarrow> bool \<times> world" where
  "checkAndClearCanceled taskId w =
     (if taskId \<in> taskCancelSet w
      then (True, w\<lparr>taskCancelSet := taskCancelSet w - {taskId},
                     runningTasks := (runningTasks w)(taskId := None)\<rparr>)
      else (False, w))"


text \<open>Calling a callback: the call is observed, then the callback returns or throws.\<close>

definition invoke :: "callback \<Rightarrow> event \<Rightarrow> world \<Rightarrow> val option \<times> world" where
  "invoke cb ev w = (cb_raises cb, w\<lparr>trace := trace w @ [ev]\<rparr>)"

definition console_error :: "diag \<Rightarrow> string \<Rightarrow> val \<Rightarrow> world \<Rightarrow> world" where
  "console_error k d x w = w\<lparr>trace := trace w @ [ConsoleError k d x]\<rparr>"

text \<open>\<^verbatim>\<open>const shouldWait = task.donotWaitAsync !== true\<close>\<close>

definition shouldWait :: "TaskInfo \<Rightarrow> bool" where
  "shouldWait t = (donotWaitAsync (item t) \<noteq> Some True)"

text \<open>
  The \<^verbatim>\<open>catch (error)\<close> block of \<^verbatim>\<open>handleFunctionTask\<close>. An exception thrown by
  \<^verbatim>\<open>task.catch\<close> leaves the block.
\<close>

definition catch_block :: "TaskInfo \<Rightarrow> nat \<Rightarrow> val \<Rightarrow> world \<Rightarrow> val option \<times> world" where
  "catch_block t currentSession error w =
     (if sessionId w = currentSession
      then (case catch (item t) of
              Some cb \<Rightarrow> invoke cb (Caught (id' t) error) w
            | None \<Rightarrow> (None, console_error SyncUncaught (taskDesc (item t)) error w))
      else (None, w))"

text \<open>
  \<^verbatim>\<open>if (this._sessionId === currentSession) { task.resolve?.(result); }\<close> in the
  \<^verbatim>\<open>try\<close> block of \<^verbatim>\<open>handleFunctionTask\<close>.
\<close>

definition try_resolve :: "TaskInfo \<Rightarrow> nat \<Rightarrow> val \<Rightarrow> world \<Rightarrow> val option \<times> world" where
  "try_resolve t currentSession v w =
     (if sessionId w = currentSession
      then (case resolve (item t) of
              Some cb \<Rightarrow> invoke cb (Resolved (id' t) v) w
            | None \<Rightarrow> (None, w))
      else (None, w))"

text \<open>
  The methods that call each other. \<open>run_calls\<close> runs the script of a callable; a call
  of \<^verbatim>\<open>addTask\<close> that lets an exception escape ends the callable with that exception.

  In \<open>handleFunctionTask\<close>, \<^verbatim>\<open>currentSession\<close> is \<open>sessionId w\<close>, read before the callable
  runs. The \<^verbatim>\<open>try\<close> and \<^verbatim>\<open>catch\<close> blocks give \<open>(isAsync, pending, w3)\<close>: the flag, the
  exception still in flight and the state; the \<^verbatim>\<open>finally\<close> block then runs, and an
  exception of its own (from \<open>step\<close>) replaces the one in flight.
\<close>

function run_calls :: "action list \<Rightarrow> world \<Rightarrow> val option \<times> world"
  and addTask :: "ITask \<Rightarrow> world \<Rightarrow> (val + nat) \<times> world"
  and step :: "world \<Rightarrow> val option \<times> world"
  and handleFunctionTask :: "TaskInfo \<Rightarrow> world \<Rightarrow> val option \<times> world"
  and handleAsyncTask :: "TaskInfo \<Rightarrow> nat \<Rightarrow> world \<Rightarrow> val option \<times> world"
where
  "run_calls [] w = (None, w)"
| "run_calls (CallCancel i # as) w = run_calls as (cancelTask i w)"
| "run_calls (CallClear # as) w = run_calls as (clear w)"
| "run_calls (CallAdd t # as) w =
     (case addTask t w of
        (Inl e, w') \<Rightarrow> (Some e, w')
      | (Inr i, w') \<Rightarrow> run_calls as w')"
| "addTask t w =
     (let i = mk_id (nextId w) (sessionId w);
          w1 = w\<lparr>nextId := nextId w + 1, tasks := tasks w @ [\<lparr>id' = i, item = t\<rparr>]\<rparr>
      in if \<not> running w1
         then (case step (w1\<lparr>running := True\<rparr>) of
                 (Some e, w2) \<Rightarrow> (Inl e, w2)
               | (None, w2) \<Rightarrow> (Inr i, w2))
         else (Inr i, w1))"
| "step w =
     (case tasks w of
        [] \<Rightarrow> (None, w\<lparr>running := False\<rparr>)
      | t # ts \<Rightarrow>
          (case checkAndClearCanceled (id' t) (w\<lparr>tasks := ts\<rparr>) of
             (True, w1) \<Rightarrow> step w1
           | (False, w1) \<Rightarrow>
               handleFunctionTask t (w1\<lparr>runningTasks := (runningTasks w1)(id' t \<mapsto> t)\<rparr>)))"
| "handleFunctionTask t w =
     (case run_calls (calls (task (item t)))
             (w\<lparr>trace := trace w @ [Started (id' t) (taskDesc (item t))]\<rparr>) of
        (thrown, w1) \<Rightarrow>
          (case (case (case thrown of Some e \<Rightarrow> Raises e | None \<Rightarrow> ending (task (item t))) of
                   Deferred \<Rightarrow>
                     (case handleAsyncTask t (sessionId w) w1 of
                        (None, w2) \<Rightarrow> (True, None, w2)
                      | (Some e, w2) \<Rightarrow> (True, catch_block t (sessionId w) e w2))
                 | Returns v \<Rightarrow>
                     (case try_resolve t (sessionId w) v w1 of
                        (None, w2) \<Rightarrow> (False, None, w2)
                      | (Some e, w2) \<Rightarrow> (False, catch_block t (sessionId w) e w2))
                 | Raises e \<Rightarrow> (False, catch_block t (sessionId w) e w1)) of
             (isAsync, pending, w3) \<Rightarrow>
               if \<not> isAsync \<and> sessionId w3 = sessionId w
               then (case step (w3\<lparr>runningTasks := (runningTasks w3)(id' t := None)\<rparr>) of
                       (Some e, w4) \<Rightarrow> (Some e, w4)
                     | (None, w4) \<Rightarrow> (pending, w4))
               else (pending, w3)))"
| "handleAsyncTask t session w =
     (let w1 = w\<lparr>chains := chains w @ [\<lparr>ch_task = t, ch_session = session, ch_stage = Pending\<rparr>]\<rparr>
      in if \<not> shouldWait t then step w1 else (None, w1))"
  by pat_completeness auto

subsection \<open>Every call returns\<close>

text \<open>
  The calls nest: what \<open>step\<close> is applied to at the end of \<open>handleFunctionTask\<close> is the
  state the callable left, and the callable may have added entries. The weight of a state
  is the total size of its pending entries; a script can add at most its own size to it.
\<close>

definition weight :: "world \<Rightarrow> nat" where
  "weight w = sum_list (map (\<lambda>t. size (item t)) (tasks w))"

lemma weight_simps [simp]:
  "weight (cancelTask i w) = weight w"
  "weight (clear w) = 0"
  "weight (w\<lparr>trace := tr\<rparr>) = weight w"
  "weight (w\<lparr>chains := ch\<rparr>) = weight w"
  "weight (w\<lparr>running := b\<rparr>) = weight w"
  "weight (w\<lparr>runningTasks := rt\<rparr>) = weight w"
  "weight (w\<lparr>nextId := n\<rparr>) = weight w"
  "weight (w\<lparr>tasks := ts\<rparr>) = sum_list (map (\<lambda>t. size (item t)) ts)"
  by (auto simp: weight_def cancelTask_def clear_def)

lemma weight_eqs:
  "checkAndClearCanceled i w = (c, w') \<Longrightarrow> weight w' = weight w"
  "invoke cb ev w = (x, w') \<Longrightarrow> weight w' = weight w"
  "catch_block t s e w = (x, w') \<Longrightarrow> weight w' = weight w"
  "try_resolve t s v w = (x, w') \<Longrightarrow> weight w' = weight w"
  by (auto simp: weight_def checkAndClearCanceled_def invoke_def console_error_def
      catch_block_def try_resolve_def split: option.splits if_splits)

lemma size_item_pos: "0 < size (x :: ITask)"
  by (cases x) simp

lemma calls_lt_size: "size_list size (calls (task x)) < size (x :: ITask)"
  by (cases x; cases "task x") auto

lemma weight_bound:
  "run_calls_addTask_step_handleFunctionTask_handleAsyncTask_dom (Inl (Inl (as, w))) \<Longrightarrow>
     weight (snd (run_calls as w)) \<le> size_list size as + weight w"
  "run_calls_addTask_step_handleFunctionTask_handleAsyncTask_dom (Inl (Inr (t, w))) \<Longrightarrow>
     weight (snd (addTask t w)) \<le> size t + weight w"
  "run_calls_addTask_step_handleFunctionTask_handleAsyncTask_dom (Inr (Inl w)) \<Longrightarrow>
     weight (snd (step w)) \<le> weight w"
  "run_calls_addTask_step_handleFunctionTask_handleAsyncTask_dom (Inr (Inr (Inl (ti, w)))) \<Longrightarrow>
     weight (snd (handleFunctionTask ti w)) \<le> size_list size (calls (task (item ti))) + weight w"
  "run_calls_addTask_step_handleFunctionTask_handleAsyncTask_dom (Inr (Inr (Inr (ti, s, w)))) \<Longrightarrow>
     weight (snd (handleAsyncTask ti s w)) \<le> weight w"
proof (induction as w and t w and w and ti w and ti s w
    rule: run_calls_addTask_step_handleFunctionTask_handleAsyncTask.pinduct)
  case (1 w)
  then show ?case by (simp add: run_calls.psimps)
next
  case (2 i as w)
  then show ?case by (simp add: run_calls.psimps)
next
  case (3 as w)
  then show ?case by (simp add: run_calls.psimps)
next
  case (4 t as w)
  obtain r w' where a: "addTask t w = (r, w')" by (cases "addTask t w")
  from "4.IH"(1) a have b: "weight w' \<le> size t + weight w" by simp
  show ?case
  proof (cases r)
    case (Inl e)
    with a b show ?thesis by (simp add: run_calls.psimps "4.hyps")
  next
    case (Inr i)
    from "4.IH"(2)[OF a[symmetric] Inr]
    have "weight (snd (run_calls as w')) \<le> size_list size as + weight w'" .
    with a b Inr show ?thesis by (simp add: run_calls.psimps "4.hyps")
  qed
next
  case (5 t w)
  show ?case
  proof (cases "running w")
    case True
    then show ?thesis by (simp add: addTask.psimps "5.hyps" Let_def weight_def)
  next
    case False
    let ?w1 = "w\<lparr>nextId := nextId w + 1,
                  tasks := tasks w @ [\<lparr>id' = mk_id (nextId w) (sessionId w), item = t\<rparr>]\<rparr>"
    from False "5.IH"[OF refl refl]
    have "weight (snd (step (?w1\<lparr>running := True\<rparr>))) \<le> weight (?w1\<lparr>running := True\<rparr>)"
      by simp
    then show ?thesis using False
      by (simp add: addTask.psimps "5.hyps" Let_def split: prod.splits option.splits)
        (auto simp: weight_def)
  qed
next
  case (6 w)
  show ?case
  proof (cases "tasks w")
    case Nil
    then show ?thesis by (simp add: step.psimps "6.hyps" weight_def)
  next
    case (Cons t ts)
    obtain c w1 where cc: "checkAndClearCanceled (id' t) (w\<lparr>tasks := ts\<rparr>) = (c, w1)"
      by (cases "checkAndClearCanceled (id' t) (w\<lparr>tasks := ts\<rparr>)")
    have w1: "weight w1 = weight (w\<lparr>tasks := ts\<rparr>)"
      using weight_eqs(1)[OF cc] .
    have ww: "weight w = size (item t) + weight (w\<lparr>tasks := ts\<rparr>)"
      using Cons by (simp add: weight_def)
    show ?thesis
    proof (cases c)
      case True
      from True have "c = True" by simp
      from "6.IH"(1)[OF Cons cc[symmetric] this] have "weight (snd (step w1)) \<le> weight w1" .
      with True cc Cons w1 ww show ?thesis by (simp add: step.psimps "6.hyps")
    next
      case False
      from False have "c = False" by simp
      from "6.IH"(2)[OF Cons cc[symmetric] this]
      have "weight (snd (handleFunctionTask t (w1\<lparr>runningTasks := (runningTasks w1)(id' t \<mapsto> t)\<rparr>)))
              \<le> size_list size (calls (task (item t))) + weight w1" by simp
      with False cc Cons w1 ww calls_lt_size[of "item t"] show ?thesis
        by (simp add: step.psimps "6.hyps")
    qed
  qed
next
  case (7 t w)
  let ?w0 = "w\<lparr>trace := trace w @ [Started (id' t) (taskDesc (item t))]\<rparr>"
  obtain thrown w1 where rc: "run_calls (calls (task (item t))) ?w0 = (thrown, w1)"
    by (cases "run_calls (calls (task (item t))) ?w0")
  from "7.IH"(1) rc
  have b1: "weight w1 \<le> size_list size (calls (task (item t))) + weight w" by simp
  let ?res = "case thrown of Some e \<Rightarrow> Raises e | None \<Rightarrow> ending (task (item t))"
  let ?mid = "case ?res of
                   Deferred \<Rightarrow>
                     (case handleAsyncTask t (sessionId w) w1 of
                        (None, w2) \<Rightarrow> (True, None, w2)
                      | (Some e, w2) \<Rightarrow> (True, catch_block t (sessionId w) e w2))
                 | Returns v \<Rightarrow>
                     (case try_resolve t (sessionId w) v w1 of
                        (None, w2) \<Rightarrow> (False, None, w2)
                      | (Some e, w2) \<Rightarrow> (False, catch_block t (sessionId w) e w2))
                 | Raises e \<Rightarrow> (False, catch_block t (sessionId w) e w1)"
  obtain isAsync pending w3 where mid: "?mid = (isAsync, pending, w3)" by (cases ?mid)
  have b3: "weight w3 \<le> weight w1"
  proof (cases ?res)
    case (Returns v)
    obtain r w2 where tr: "try_resolve t (sessionId w) v w1 = (r, w2)"
      by (cases "try_resolve t (sessionId w) v w1")
    have "weight w2 = weight w1" using weight_eqs(4)[OF tr] .
    then show ?thesis using mid Returns tr
      by (cases r) (auto dest: weight_eqs(3))
  next
    case (Raises e)
    show ?thesis using mid Raises by (auto dest: weight_eqs(3))
  next
    case Deferred
    from "7.IH"(2)[OF rc[symmetric] Deferred]
    have h: "weight (snd (handleAsyncTask t (sessionId w) w1)) \<le> weight w1" .
    obtain r w2 where ha: "handleAsyncTask t (sessionId w) w1 = (r, w2)"
      by (cases "handleAsyncTask t (sessionId w) w1")
    show ?thesis using mid Deferred ha h
      by (cases r) (auto dest: weight_eqs(3))
  qed
  have hf: "handleFunctionTask t w =
      (if \<not> isAsync \<and> sessionId w3 = sessionId w
       then (case step (w3\<lparr>runningTasks := (runningTasks w3)(id' t := None)\<rparr>) of
               (Some e, w4) \<Rightarrow> (Some e, w4)
             | (None, w4) \<Rightarrow> (pending, w4))
       else (pending, w3))"
    by (subst handleFunctionTask.psimps[OF "7.hyps"], unfold rc prod.case mid, rule refl)
  show ?case
  proof (cases "\<not> isAsync \<and> sessionId w3 = sessionId w")
    case True
    from "7.IH"(3)[OF rc[symmetric] mid[symmetric] refl True]
    have "weight (snd (step (w3\<lparr>runningTasks := (runningTasks w3)(id' t := None)\<rparr>))) \<le> weight w3"
      by simp
    with True b1 b3 show ?thesis
      by (auto simp: hf split: prod.splits option.splits)
  next
    case False
    with b1 b3 show ?thesis
      by (auto simp: hf)
  qed
next
  case (8 t session w)
  then show ?case
    by (simp add: handleAsyncTask.psimps Let_def)
qed

termination run_calls
proof (relation "measure (\<lambda>x. case x of
      Inl (Inl (as, w)) \<Rightarrow> 4 * (size_list size as + weight w)
    | Inl (Inr (t, w)) \<Rightarrow> 4 * (size t + weight w) + 2
    | Inr (Inl w) \<Rightarrow> 4 * weight w + 1
    | Inr (Inr (Inl (ti, w))) \<Rightarrow> 4 * (size (item ti) + weight w)
    | Inr (Inr (Inr (ti, s, w))) \<Rightarrow> 4 * weight w + 2)", goal_cases)
  case 1
  show ?case by simp
next
  case (2 i as w)
  show ?case by simp
next
  case (3 as w)
  show ?case by simp
next
  case (4 t as w)
  show ?case by simp
next
  case (5 t as w x y b)
  from weight_bound(2)[OF "5"(3)] "5"(1) have "weight y \<le> size t + weight w"
    by (metis snd_conv)
  then show ?case by simp
next
  case (6 t w x xa)
  then show ?case by (simp add: weight_def)
next
  case (7 w x21 x22 x y)
  from weight_eqs(1)[OF "7"(2)[symmetric]] "7"(1) size_item_pos[of "item x21"]
  show ?case by (simp add: weight_def)
next
  case (8 w x21 x22 x y)
  from weight_eqs(1)[OF "8"(2)[symmetric]] "8"(1)
  show ?case by (simp add: weight_def)
next
  case (9 t w)
  show ?case using calls_lt_size[of "item t"] by simp
next
  case (10 t w xa y)
  from weight_bound(1)[OF "10"(3)] "10"(1)
  have "weight y \<le> size_list size (calls (task (item t))) + weight w"
    by (metis snd_conv weight_simps(3))
  then show ?case using calls_lt_size[of "item t"] by simp
next
  case (11 t w xa y xb ya xaa yb)
  from weight_bound(1)[OF "11"(6)] "11"(1)
  have b1: "weight y \<le> size_list size (calls (task (item t))) + weight w"
    by (metis snd_conv weight_simps(3))
  have "weight yb \<le> weight y"
  proof (cases "case xa of None \<Rightarrow> ending (task (item t)) | Some x \<Rightarrow> Raises x")
    case (Returns v)
    obtain r w2 where tr: "try_resolve t (sessionId w) v y = (r, w2)"
      by (cases "try_resolve t (sessionId w) v y")
    show ?thesis
    proof (cases r)
      case None
      with "11"(2,3) Returns tr weight_eqs(4)[OF tr] show ?thesis by simp
    next
      case (Some e)
      with "11"(2,3) Returns tr have "catch_block t (sessionId w) e w2 = (xaa, yb)" by simp
      from weight_eqs(3)[OF this] weight_eqs(4)[OF tr] show ?thesis by simp
    qed
  next
    case (Raises e)
    with "11"(2,3) have "catch_block t (sessionId w) e y = (xaa, yb)" by simp
    from weight_eqs(3)[OF this] show ?thesis by simp
  next
    case Deferred
    with "11"(2,4) show ?thesis by (auto split: prod.splits option.splits)
  qed
  with b1 show ?case using calls_lt_size[of "item t"] by simp
next
  case (12 t session w x)
  then show ?case by simp
qed

declare addTask.simps [simp del] step.simps [simp del] handleFunctionTask.simps [simp del]
  handleAsyncTask.simps [simp del]

subsection \<open>The promise handlers and the environment\<close>

text \<open>
  The handlers that \<^verbatim>\<open>handleAsyncTask\<close> registers: \<open>onFulfilled\<close> and \<open>onRejected\<close> are
  the two arguments of \<^verbatim>\<open>then\<close>, \<open>onCatch\<close> is the argument of the trailing
  \<^verbatim>\<open>.catch\<close>, which runs when one of the first two threw. \<open>session\<close> is the captured
  \<^verbatim>\<open>sessionId\<close>. An exception thrown by a callback leaves the handler at once, before
  \<^verbatim>\<open>if (shouldWait) this._step()\<close>.
\<close>

definition onFulfilled :: "TaskInfo \<Rightarrow> nat \<Rightarrow> val \<Rightarrow> world \<Rightarrow> val option \<times> world" where
  "onFulfilled t session v w =
     (if sessionId w \<noteq> session then (None, w)
      else case checkAndClearCanceled (id' t) (w\<lparr>runningTasks := (runningTasks w)(id' t := None)\<rparr>) of
        (canceled, w1) \<Rightarrow>
          (case (if \<not> canceled
                 then (case resolve (item t) of
                         Some cb \<Rightarrow> invoke cb (Resolved (id' t) v) w1
                       | None \<Rightarrow> (None, w1))
                 else (None, w1)) of
             (Some e, w2) \<Rightarrow> (Some e, w2)
           | (None, w2) \<Rightarrow> if shouldWait t then step w2 else (None, w2)))"

definition onRejected :: "TaskInfo \<Rightarrow> nat \<Rightarrow> val \<Rightarrow> world \<Rightarrow> val option \<times> world" where
  "onRejected t session reason w =
     (if sessionId w \<noteq> session then (None, w)
      else case checkAndClearCanceled (id' t) (w\<lparr>runningTasks := (runningTasks w)(id' t := None)\<rparr>) of
        (canceled, w1) \<Rightarrow>
          (case (if \<not> canceled
                 then (case reject (item t) of
                         Some cb \<Rightarrow> invoke cb (Rejected (id' t) reason) w1
                       | None \<Rightarrow>
                           (case catch (item t) of
                              Some cb \<Rightarrow> invoke cb (Caught (id' t) reason) w1
                            | None \<Rightarrow>
                                (None, console_error PromiseUncaught (taskDesc (item t)) reason w1)))
                 else (None, w1)) of
             (Some e, w2) \<Rightarrow> (Some e, w2)
           | (None, w2) \<Rightarrow> if shouldWait t then step w2 else (None, w2)))"

definition onCatch :: "TaskInfo \<Rightarrow> nat \<Rightarrow> val \<Rightarrow> world \<Rightarrow> val option \<times> world" where
  "onCatch t session reason w =
     (if sessionId w \<noteq> session then (None, w)
      else case (case catch (item t) of
                   Some cb \<Rightarrow> invoke cb (Caught (id' t) reason)
                               (w\<lparr>runningTasks := (runningTasks w)(id' t := None)\<rparr>)
                 | None \<Rightarrow> (None, console_error HandlerUncaught (taskDesc (item t)) reason
                               (w\<lparr>runningTasks := (runningTasks w)(id' t := None)\<rparr>))) of
             (Some e, w2) \<Rightarrow> (Some e, w2)
           | (None, w2) \<Rightarrow> if shouldWait t then step w2 else (None, w2))"

text \<open>
  What the environment does, one input at a time: a caller uses the public methods, a
  promise settles (the chain is named by its position in \<open>chains\<close>), or the
  \<^verbatim>\<open>.catch\<close> handler of a chain whose \<^verbatim>\<open>then\<close> handler threw gets its turn. A
  chain leaves its stage when its handler is entered; if the \<^verbatim>\<open>then\<close> handler throws,
  the chain waits for its \<^verbatim>\<open>.catch\<close> handler. An exception that escapes \<^verbatim>\<open>addTask\<close>
  reaches the caller; the state stays as it is.
\<close>

datatype settlement = Fulfils val | Rejects val

datatype input = Submit ITask | Cancel nat | ClearAll | Settles nat settlement | CatchRuns nat

definition set_stage :: "nat \<Rightarrow> stage \<Rightarrow> world \<Rightarrow> world" where
  "set_stage k st w = w\<lparr>chains := (chains w)[k := (chains w ! k)\<lparr>ch_stage := st\<rparr>]\<rparr>"

definition settle :: "nat \<Rightarrow> settlement \<Rightarrow> world \<Rightarrow> world" where
  "settle k s w =
     (if k < length (chains w) \<and> ch_stage (chains w ! k) = Pending
      then (case (case s of
                    Fulfils v \<Rightarrow>
                      onFulfilled (ch_task (chains w ! k)) (ch_session (chains w ! k)) v
                        (set_stage k Done w)
                  | Rejects x \<Rightarrow>
                      onRejected (ch_task (chains w ! k)) (ch_session (chains w ! k)) x
                        (set_stage k Done w)) of
              (None, w') \<Rightarrow> w'
            | (Some e, w') \<Rightarrow> set_stage k (Thrown e) w')
      else w)"

definition catch_runs :: "nat \<Rightarrow> world \<Rightarrow> world" where
  "catch_runs k w =
     (if k < length (chains w)
      then (case ch_stage (chains w ! k) of
              Thrown e \<Rightarrow>
                snd (onCatch (ch_task (chains w ! k)) (ch_session (chains w ! k)) e
                       (set_stage k Done w))
            | _ \<Rightarrow> w)
      else w)"

fun fire :: "input \<Rightarrow> world \<Rightarrow> world" where
  "fire (Submit t) w = snd (addTask t w)"
| "fire (Cancel i) w = cancelTask i w"
| "fire ClearAll w = clear w"
| "fire (Settles k s) w = settle k s w"
| "fire (CatchRuns k) w = catch_runs k w"

definition run :: "input list \<Rightarrow> world \<Rightarrow> world" where
  "run xs w = foldl (\<lambda>w x. fire x w) w xs"

text \<open>The equations that evaluate a run on concrete inputs.\<close>

lemmas eval_simps =
  run_def create_def addTask.simps step.simps handleFunctionTask.simps handleAsyncTask.simps
  mk_id_def checkAndClearCanceled_def catch_block_def try_resolve_def invoke_def
  console_error_def shouldWait_def settle_def catch_runs_def set_stage_def onFulfilled_def
  onRejected_def onCatch_def cancelTask_def clear_def Let_def

subsection \<open>Auxiliary notions\<close>

text \<open>
  \<open>call_task t w\<close> is the call \<^verbatim>\<open>task.task()\<close> in \<open>handleFunctionTask\<close>: how the callable
  ended and the state it left.
\<close>

definition call_task :: "TaskInfo \<Rightarrow> world \<Rightarrow> outcome \<times> world" where
  "call_task t w =
     (case run_calls (calls (task (item t)))
             (w\<lparr>trace := trace w @ [Started (id' t) (taskDesc (item t))]\<rparr>) of
        (thrown, w1) \<Rightarrow> (case thrown of Some e \<Rightarrow> Raises e | None \<Rightarrow> ending (task (item t)), w1))"

text \<open>
  \<open>extends w w'\<close>: from \<open>w\<close> to \<open>w'\<close> the session did not go back, the trace and the
  registered chains only grew, and each new chain captured a session that is not ahead of
  the session of \<open>w'\<close>.
\<close>

definition extends :: "world \<Rightarrow> world \<Rightarrow> bool" where
  "extends w w' \<longleftrightarrow>
     sessionId w \<le> sessionId w' \<and>
     (\<exists>suf. trace w' = trace w @ suf) \<and>
     (\<exists>new. chains w' = chains w @ new \<and> list_all (\<lambda>c. ch_session c \<le> sessionId w') new)"

text \<open>No chain has captured a session that lies ahead of the live one.\<close>

definition chains_ok :: "world \<Rightarrow> bool" where
  "chains_ok w = list_all (\<lambda>c. ch_session c \<le> sessionId w) (chains w)"

text \<open>
  \<open>follows w w'\<close> is the part of \<open>extends\<close> that also survives a chain moving to its
  next stage.
\<close>

definition follows :: "world \<Rightarrow> world \<Rightarrow> bool" where
  "follows w w' \<longleftrightarrow>
     sessionId w \<le> sessionId w' \<and>
     (\<exists>more. map ch_session (chains w') = map ch_session (chains w) @ more) \<and>
     (chains_ok w \<longrightarrow> chains_ok w')"

text \<open>
  What the specification says is reported, written from its words. For a synchronous
  exception: the generic-error callback if present, otherwise a diagnostic with the
  description. For a rejection: the failure callback if present, else the generic-error
  callback if present, else a diagnostic. For an exception thrown inside a promise
  handler (the trailing \<^verbatim>\<open>.catch\<close>): the generic-error callback, else a diagnostic.
\<close>

definition sync_report :: "TaskInfo \<Rightarrow> val \<Rightarrow> event" where
  "sync_report t e =
     (case catch (item t) of
        Some cb \<Rightarrow> Caught (id' t) e
      | None \<Rightarrow> ConsoleError SyncUncaught (taskDesc (item t)) e)"

definition rejection_report :: "TaskInfo \<Rightarrow> val \<Rightarrow> event" where
  "rejection_report t reason =
     (case reject (item t) of
        Some cb \<Rightarrow> Rejected (id' t) reason
      | None \<Rightarrow>
          (case catch (item t) of
             Some cb \<Rightarrow> Caught (id' t) reason
           | None \<Rightarrow> ConsoleError PromiseUncaught (taskDesc (item t)) reason))"

definition rejection_callback :: "TaskInfo \<Rightarrow> callback option" where
  "rejection_callback t = (case reject (item t) of Some cb \<Rightarrow> Some cb | None \<Rightarrow> catch (item t))"

definition handler_report :: "TaskInfo \<Rightarrow> val \<Rightarrow> event" where
  "handler_report t x =
     (case catch (item t) of
        Some cb \<Rightarrow> Caught (id' t) x
      | None \<Rightarrow> ConsoleError HandlerUncaught (taskDesc (item t)) x)"

text \<open>The state after one report for an entry that leaves the running set.\<close>

definition delivered :: "TaskInfo \<Rightarrow> event \<Rightarrow> world \<Rightarrow> world" where
  "delivered t ev w = w\<lparr>runningTasks := (runningTasks w)(id' t := None), trace := trace w @ [ev]\<rparr>"

text \<open>The state after a cancellation mark has been seen and dropped.\<close>

definition unmarked :: "TaskInfo \<Rightarrow> world \<Rightarrow> world" where
  "unmarked t w = w\<lparr>taskCancelSet := taskCancelSet w - {id' t},
     runningTasks := (runningTasks w)(id' t := None)\<rparr>"

subsection \<open>Notions for serial execution\<close>

text \<open>
  A work item is \<^emph>\<open>calm\<close> when it is in wait mode (\<^verbatim>\<open>donotWaitAsync\<close> is not \<^verbatim>\<open>true\<close>), its
  \<^verbatim>\<open>catch\<close> callback, if any, returns, and the items its callable submits are calm as
  well. Its callable may raise or be rejected, and its \<^verbatim>\<open>resolve\<close> and \<^verbatim>\<open>reject\<close>
  callbacks may raise.
\<close>

primrec calm_action :: "action \<Rightarrow> bool"
  and calm_actions :: "action list \<Rightarrow> bool"
  and calm_callable :: "callable \<Rightarrow> bool"
  and calm_task :: "ITask \<Rightarrow> bool"
where
  "calm_action (CallCancel i) = True"
| "calm_action CallClear = True"
| "calm_action (CallAdd t) = calm_task t"
| "calm_actions [] = True"
| "calm_actions (a # as) = (calm_action a \<and> calm_actions as)"
| "calm_callable (Callable as e) = calm_actions as"
| "calm_task (ITask c d rs dn rj ct) =
     (calm_callable c \<and> dn \<noteq> Some True \<and> (case ct of None \<Rightarrow> True | Some cb \<Rightarrow> cb_raises cb = None))"

primrec calm_input :: "input \<Rightarrow> bool" where
  "calm_input (Submit t) = calm_task t"
| "calm_input (Cancel i) = True"
| "calm_input ClearAll = True"
| "calm_input (Settles k s) = True"
| "calm_input (CatchRuns k) = True"

text \<open>
  The chains of the current session whose handlers have not all run: the entries the loop
  is waiting for.
\<close>

definition live :: "world \<Rightarrow> nat set" where
  "live w = {k. k < length (chains w) \<and> ch_session (chains w ! k) = sessionId w
                \<and> ch_stage (chains w ! k) \<noteq> Done}"

definition calm_world :: "world \<Rightarrow> bool" where
  "calm_world w \<longleftrightarrow>
     list_all (\<lambda>t. calm_task (item t)) (tasks w) \<and>
     list_all (\<lambda>c. calm_task (item (ch_task c))) (chains w)"

text \<open>
  The loop is \<^emph>\<open>serial\<close> when at most one entry is awaited, the manager is marked running
  while one is, and nothing is queued while it is not running. It is \<^emph>\<open>ready\<close> when it is
  running and awaits nothing: the states in which \<^verbatim>\<open>_step\<close> is entered.
\<close>

definition serial :: "world \<Rightarrow> bool" where
  "serial w \<longleftrightarrow>
     calm_world w \<and> chains_ok w \<and>
     (\<forall>i j. i \<in> live w \<longrightarrow> j \<in> live w \<longrightarrow> i = j) \<and>
     (live w \<noteq> {} \<longrightarrow> running w) \<and>
     (\<not> running w \<longrightarrow> tasks w = [])"

definition ready :: "world \<Rightarrow> bool" where
  "ready w \<longleftrightarrow> serial w \<and> running w \<and> live w = {}"

text \<open>
  What a \<^verbatim>\<open>then\<close> handler leaves behind: either it returns, in a serial state, or it
  throws before it has advanced the loop, with as many chains as before.
\<close>

definition settled_well :: "nat \<Rightarrow> val option \<times> world \<Rightarrow> bool" where
  "settled_well n r = (case fst r of
       None \<Rightarrow> serial (snd r)
     | Some e \<Rightarrow> ready (snd r) \<and> length (chains (snd r)) = n)"

subsection \<open>Notions for the life of a cancellation mark\<close>

text \<open>
  The identifiers that \<^verbatim>\<open>addTask\<close> has handed out between two states of one session.
\<close>

definition issued :: "world \<Rightarrow> world \<Rightarrow> nat set" where
  "issued w w' = (\<lambda>n. mk_id n (sessionId w)) ` {nextId w ..< nextId w'}"

text \<open>
  \<open>keeps D w w'\<close>: on the way from \<open>w\<close> to \<open>w'\<close> neither counter went back and, if the
  session is still the same, the only marks that may have gone are those in \<open>D\<close>, those
  of entries pending in \<open>w\<close>, and those of entries submitted on the way; the entries
  pending in \<open>w'\<close> were pending in \<open>w\<close> or were submitted on the way.
\<close>

definition keeps :: "nat set \<Rightarrow> world \<Rightarrow> world \<Rightarrow> bool" where
  "keeps D w w' \<longleftrightarrow>
     sessionId w \<le> sessionId w' \<and> nextId w \<le> nextId w' \<and>
     (sessionId w' = sessionId w \<longrightarrow>
        taskCancelSet w - (D \<union> id' ` set (tasks w) \<union> issued w w') \<subseteq> taskCancelSet w' \<and>
        id' ` set (tasks w') \<subseteq> id' ` set (tasks w) \<union> issued w w')"

text \<open>
  The identifiers whose deferred outcome is delivered by an input, and by a list of
  inputs.
\<close>

definition looked_at :: "input \<Rightarrow> world \<Rightarrow> nat set" where
  "looked_at x w = (case x of Settles k s \<Rightarrow> {id' (ch_task (chains w ! k))} | _ \<Rightarrow> {})"

fun observed :: "input list \<Rightarrow> world \<Rightarrow> nat set" where
  "observed [] w = {}"
| "observed (x # xs) w = looked_at x w \<union> observed xs (fire x w)"

subsection \<open>Work items used as concrete inputs\<close>

text \<open>
  All are in wait mode (\<^verbatim>\<open>donotWaitAsync\<close> is left out). \<open>deferred_task\<close> returns a
  promise and \<open>value_task\<close> a value, neither has callbacks; \<open>failing_task\<close> throws
  \<open>''x''\<close> and its \<^verbatim>\<open>catch\<close> callback throws \<open>''y''\<close> in turn; \<open>watched_task\<close> returns a
  promise and has a \<^verbatim>\<open>resolve\<close> and a \<^verbatim>\<open>catch\<close> callback; \<open>guarded_task\<close> returns a
  promise, its \<^verbatim>\<open>reject\<close> callback throws \<open>''boom''\<close> and it has a \<^verbatim>\<open>catch\<close> callback;
  \<open>handled_task\<close> is the same with a \<^verbatim>\<open>reject\<close> callback that returns;
  \<open>self_cancelling\<close> calls \<^verbatim>\<open>cancelTask(1)\<close>, its own identifier when it is the first
  entry, and returns a value to a \<^verbatim>\<open>resolve\<close> callback; \<open>restarting_task\<close> calls
  \<^verbatim>\<open>clear()\<close>, adds two entries and returns a value to a \<^verbatim>\<open>resolve\<close> callback.
\<close>

definition deferred_task :: "string \<Rightarrow> ITask" where
  "deferred_task d = ITask (Callable [] Deferred) d None None None None"

definition value_task :: "string \<Rightarrow> val \<Rightarrow> ITask" where
  "value_task d v = ITask (Callable [] (Returns v)) d None None None None"

definition failing_task :: "string \<Rightarrow> ITask" where
  "failing_task d =
     ITask (Callable [] (Raises ''x'')) d None None None (Some (Callback (Some ''y'')))"

definition watched_task :: ITask where
  "watched_task =
     ITask (Callable [] Deferred) ''A'' (Some (Callback None)) None None (Some (Callback None))"

definition guarded_task :: ITask where
  "guarded_task = ITask (Callable [] Deferred) ''R'' None None
     (Some (Callback (Some ''boom''))) (Some (Callback None))"

definition handled_task :: ITask where
  "handled_task = ITask (Callable [] Deferred) ''R'' None None
     (Some (Callback None)) (Some (Callback None))"

definition self_cancelling :: ITask where
  "self_cancelling =
     ITask (Callable [CallCancel 1] (Returns ''v'')) ''self'' (Some (Callback None)) None None None"

definition restarting_task :: ITask where
  "restarting_task =
     ITask (Callable [CallClear, CallAdd (deferred_task ''X''), CallAdd (value_task ''Y'' ''y'')]
              (Returns ''v''))
       ''old'' (Some (Callback None)) None None (Some (Callback None))"

text \<open>
  The items of the repository's test suite: \<open>sync_item\<close> returns a value and
  \<open>async_item\<close> a promise, each with a \<^verbatim>\<open>resolve\<close> callback; \<open>detached_item\<close> is
  \<open>async_item\<close> with \<^verbatim>\<open>donotWaitAsync: true\<close>.
\<close>

definition sync_item :: "string \<Rightarrow> val \<Rightarrow> ITask" where
  "sync_item d v = ITask (Callable [] (Returns v)) d (Some (Callback None)) None None None"

definition async_item :: "string \<Rightarrow> ITask" where
  "async_item d = ITask (Callable [] Deferred) d (Some (Callback None)) None None None"

definition detached_item :: "string \<Rightarrow> ITask" where
  "detached_item d = ITask (Callable [] Deferred) d (Some (Callback None)) (Some True) None None"

text \<open>
  The state in which \<open>step\<close> hands the first entry \<open>t\<close> of a fresh manager to
  \<open>handleFunctionTask\<close>, with \<open>ts\<close> still pending.
\<close>

definition started :: "TaskInfo \<Rightarrow> TaskInfo list \<Rightarrow> world" where
  "started t ts = create\<lparr>nextId := 2 + length ts, running := True,
     runningTasks := [id' t \<mapsto> t], tasks := ts\<rparr>"

subsection \<open>Unfolding and monotonicity\<close>

lemma snd_case_opt [simp]:
  "snd (case p of (None, w) \<Rightarrow> (a, w) | (Some e, w) \<Rightarrow> (b e, w)) = snd p"
  by (cases p; cases "fst p") auto

lemma handleFunctionTask_unfold:
  "handleFunctionTask t w =
     (case call_task t w of
        (res, w1) \<Rightarrow>
          (case (case res of
                   Deferred \<Rightarrow>
                     (case handleAsyncTask t (sessionId w) w1 of
                        (None, w2) \<Rightarrow> (True, None, w2)
                      | (Some e, w2) \<Rightarrow> (True, catch_block t (sessionId w) e w2))
                 | Returns v \<Rightarrow>
                     (case try_resolve t (sessionId w) v w1 of
                        (None, w2) \<Rightarrow> (False, None, w2)
                      | (Some e, w2) \<Rightarrow> (False, catch_block t (sessionId w) e w2))
                 | Raises e \<Rightarrow> (False, catch_block t (sessionId w) e w1)) of
             (isAsync, pending, w3) \<Rightarrow>
               if \<not> isAsync \<and> sessionId w3 = sessionId w
               then (case step (w3\<lparr>runningTasks := (runningTasks w3)(id' t := None)\<rparr>) of
                       (Some e, w4) \<Rightarrow> (Some e, w4)
                     | (None, w4) \<Rightarrow> (pending, w4))
               else (pending, w3)))"
  by (subst handleFunctionTask.simps) (simp add: call_task_def split: prod.splits)

lemma extends_refl [simp]: "extends w w"
  by (simp add: extends_def)

lemma extends_trans: "extends a b \<Longrightarrow> extends b c \<Longrightarrow> extends a c"
  unfolding extends_def
  by (elim conjE exE) (auto simp: list_all_iff intro: order_trans)

lemma extends_prims:
  "extends w (cancelTask i w)"
  "extends w (clear w)"
  "extends w (w\<lparr>trace := trace w @ es\<rparr>)"
  "extends w (w\<lparr>running := b\<rparr>)"
  "extends w (w\<lparr>runningTasks := rt\<rparr>)"
  "extends w (w\<lparr>tasks := ts\<rparr>)"
  "extends w (w\<lparr>nextId := n, tasks := ts\<rparr>)"
  "extends w (w\<lparr>nextId := n, tasks := ts, running := b\<rparr>)"
  "extends w (w\<lparr>tasks := ts, runningTasks := rt\<rparr>)"
  "s \<le> sessionId w \<Longrightarrow>
     extends w (w\<lparr>chains := chains w @ [\<lparr>ch_task = t, ch_session = s, ch_stage = st\<rparr>]\<rparr>)"
  by (simp_all add: extends_def cancelTask_def clear_def)

lemma extends_eqs:
  "checkAndClearCanceled i w = (c, w') \<Longrightarrow> extends w w'"
  "invoke cb ev w = (x, w') \<Longrightarrow> extends w w'"
  "catch_block t s e w = (x, w') \<Longrightarrow> extends w w'"
  "try_resolve t s v w = (x, w') \<Longrightarrow> extends w w'"
  by (auto simp: extends_def checkAndClearCanceled_def invoke_def console_error_def
      catch_block_def try_resolve_def split: option.splits if_splits)

lemma extends_all:
  "extends w (snd (run_calls as w))"
  "extends w (snd (addTask t w))"
  "extends w (snd (step w))"
  "extends (w\<lparr>trace := trace w @ [Started (id' ti) (taskDesc (item ti))]\<rparr>)
     (snd (handleFunctionTask ti w))"
  "s \<le> sessionId w \<Longrightarrow> extends w (snd (handleAsyncTask ti s w))"
proof (induction as w and t w and w and ti w and ti s w
    rule: run_calls_addTask_step_handleFunctionTask_handleAsyncTask.induct)
  case (1 w)
  show ?case by simp
next
  case (2 i as w)
  from extends_trans[OF extends_prims(1) "2.IH"] show ?case by simp
next
  case (3 as w)
  from extends_trans[OF extends_prims(2) "3.IH"] show ?case by simp
next
  case (4 t as w)
  obtain r w' where a: "addTask t w = (r, w')" by (cases "addTask t w")
  from "4.IH"(1) a have b: "extends w w'" by simp
  show ?case
  proof (cases r)
    case (Inl e)
    with a b show ?thesis by simp
  next
    case (Inr i)
    from "4.IH"(2)[OF a[symmetric] Inr] have "extends w' (snd (run_calls as w'))" .
    with a b Inr show ?thesis by (simp add: extends_trans)
  qed
next
  case (5 t w)
  show ?case
  proof (cases "running w")
    case True
    then show ?thesis by (simp add: addTask.simps Let_def extends_prims)
  next
    case False
    let ?w1 = "w\<lparr>nextId := nextId w + 1,
                  tasks := tasks w @ [\<lparr>id' = mk_id (nextId w) (sessionId w), item = t\<rparr>]\<rparr>"
    from False "5.IH"[OF refl refl]
    have "extends (?w1\<lparr>running := True\<rparr>) (snd (step (?w1\<lparr>running := True\<rparr>)))"
      by simp
    from extends_trans[OF extends_prims(8) this]
    show ?thesis using False
      by (simp add: addTask.simps Let_def)
  qed
next
  case (6 w)
  show ?case
  proof (cases "tasks w")
    case Nil
    then show ?thesis by (simp add: step.simps extends_prims)
  next
    case (Cons t ts)
    obtain c w1 where cc: "checkAndClearCanceled (id' t) (w\<lparr>tasks := ts\<rparr>) = (c, w1)"
      by (cases "checkAndClearCanceled (id' t) (w\<lparr>tasks := ts\<rparr>)")
    have w1: "extends w w1"
      using extends_trans[OF extends_prims(6) extends_eqs(1)[OF cc]] .
    show ?thesis
    proof (cases c)
      case True
      from True have "c = True" by simp
      from "6.IH"(1)[OF Cons cc[symmetric] this] have "extends w1 (snd (step w1))" .
      with True cc Cons w1 show ?thesis by (simp add: step.simps extends_trans)
    next
      case False
      from False have "c = False" by simp
      let ?w2 = "w1\<lparr>runningTasks := (runningTasks w1)(id' t \<mapsto> t)\<rparr>"
      from "6.IH"(2)[OF Cons cc[symmetric] \<open>c = False\<close>]
      have "extends (?w2\<lparr>trace := trace ?w2 @ [Started (id' t) (taskDesc (item t))]\<rparr>)
              (snd (handleFunctionTask t ?w2))" .
      from extends_trans[OF extends_prims(3) this] have "extends ?w2 (snd (handleFunctionTask t ?w2))" .
      from extends_trans[OF extends_trans[OF w1 extends_prims(5)] this]
      show ?thesis using False cc Cons by (simp add: step.simps)
    qed
  qed
next
  case (7 t w)
  let ?w0 = "w\<lparr>trace := trace w @ [Started (id' t) (taskDesc (item t))]\<rparr>"
  obtain thrown w1 where rc: "run_calls (calls (task (item t))) ?w0 = (thrown, w1)"
    by (cases "run_calls (calls (task (item t))) ?w0")
  from "7.IH"(1) rc have b1: "extends ?w0 w1" by simp
  then have sess: "sessionId w \<le> sessionId w1" by (simp add: extends_def)
  let ?res = "case thrown of Some e \<Rightarrow> Raises e | None \<Rightarrow> ending (task (item t))"
  let ?mid = "case ?res of
                   Deferred \<Rightarrow>
                     (case handleAsyncTask t (sessionId w) w1 of
                        (None, w2) \<Rightarrow> (True, None, w2)
                      | (Some e, w2) \<Rightarrow> (True, catch_block t (sessionId w) e w2))
                 | Returns v \<Rightarrow>
                     (case try_resolve t (sessionId w) v w1 of
                        (None, w2) \<Rightarrow> (False, None, w2)
                      | (Some e, w2) \<Rightarrow> (False, catch_block t (sessionId w) e w2))
                 | Raises e \<Rightarrow> (False, catch_block t (sessionId w) e w1)"
  obtain isAsync pending w3 where mid: "?mid = (isAsync, pending, w3)" by (cases ?mid)
  have b3: "extends w1 w3"
  proof (cases ?res)
    case (Returns v)
    obtain r w2 where tr: "try_resolve t (sessionId w) v w1 = (r, w2)"
      by (cases "try_resolve t (sessionId w) v w1")
    have "extends w1 w2" using extends_eqs(4)[OF tr] .
    then show ?thesis using mid Returns tr
      by (cases r) (auto dest: extends_eqs(3) intro: extends_trans)
  next
    case (Raises e)
    show ?thesis using mid Raises by (auto dest: extends_eqs(3))
  next
    case Deferred
    from "7.IH"(2)[OF rc[symmetric] Deferred sess]
    have h: "extends w1 (snd (handleAsyncTask t (sessionId w) w1))" .
    obtain r w2 where ha: "handleAsyncTask t (sessionId w) w1 = (r, w2)"
      by (cases "handleAsyncTask t (sessionId w) w1")
    show ?thesis using mid Deferred ha h
      by (cases r) (auto dest: extends_eqs(3) intro: extends_trans)
  qed
  have hf: "handleFunctionTask t w =
      (if \<not> isAsync \<and> sessionId w3 = sessionId w
       then (case step (w3\<lparr>runningTasks := (runningTasks w3)(id' t := None)\<rparr>) of
               (Some e, w4) \<Rightarrow> (Some e, w4)
             | (None, w4) \<Rightarrow> (pending, w4))
       else (pending, w3))"
    by (subst handleFunctionTask.simps, unfold rc prod.case mid, rule refl)
  from extends_trans[OF b1 b3] have b13: "extends ?w0 w3" .
  show ?case
  proof (cases "\<not> isAsync \<and> sessionId w3 = sessionId w")
    case True
    let ?w3' = "w3\<lparr>runningTasks := (runningTasks w3)(id' t := None)\<rparr>"
    from "7.IH"(3)[OF rc[symmetric] mid[symmetric] refl True]
    have "extends ?w3' (snd (step ?w3'))" .
    from extends_trans[OF extends_trans[OF b13 extends_prims(5)] this]
    have "extends ?w0 (snd (step ?w3'))" .
    with True show ?thesis
      by (auto simp: hf split: prod.splits option.splits)
  next
    case False
    with b13 show ?thesis
      by (auto simp: hf)
  qed
next
  case (8 t session w)
  let ?w1 = "w\<lparr>chains := chains w @ [\<lparr>ch_task = t, ch_session = session, ch_stage = Pending\<rparr>]\<rparr>"
  have e1: "extends w ?w1" using extends_prims(10)[OF "8.prems"] .
  show ?case
  proof (cases "shouldWait t")
    case True
    with e1 show ?thesis by (simp add: handleAsyncTask.simps Let_def)
  next
    case False
    from "8.IH"[OF refl False] have "extends ?w1 (snd (step ?w1))" .
    from extends_trans[OF e1 this] False show ?thesis by (simp add: handleAsyncTask.simps Let_def)
  qed
qed

lemma follows_refl [simp]: "follows w w"
  by (simp add: follows_def)

lemma follows_trans: "follows a b \<Longrightarrow> follows b c \<Longrightarrow> follows a c"
  unfolding follows_def by (elim conjE exE) auto

lemma extends_follows: "extends w w' \<Longrightarrow> follows w w'"
  unfolding extends_def follows_def chains_ok_def
  by (elim conjE exE) (auto simp: list_all_iff)

lemma chains_ok_sessions:
  "chains_ok w \<longleftrightarrow> (\<forall>s \<in> set (map ch_session (chains w)). s \<le> sessionId w)"
  by (auto simp: chains_ok_def list_all_iff)

lemma follows_set_stage: "follows w (set_stage k st w)"
proof -
  have m: "map ch_session (chains (set_stage k st w)) = map ch_session (chains w)"
  proof (cases "k < length (chains w)")
    case True
    then have "(map ch_session (chains w))[k := ch_session (chains w ! k)] = map ch_session (chains w)"
      by (metis list_update_id nth_map)
    then show ?thesis by (simp add: map_update set_stage_def)
  next
    case False
    then show ?thesis by (simp add: list_update_beyond set_stage_def)
  qed
  have s: "sessionId (set_stage k st w) = sessionId w" by (simp add: set_stage_def)
  show ?thesis unfolding follows_def chains_ok_sessions m s by simp
qed

lemma extends_handlers:
  "extends w (snd (onFulfilled t s v w))"
  "extends w (snd (onRejected t s x w))"
  "extends w (snd (onCatch t s x w))"
proof -
  have st: "\<And>a b. extends a b \<Longrightarrow> extends a (snd (step b))"
    using extends_all(3) extends_trans by blast
  have up: "\<And>a ev. extends a (a\<lparr>trace := trace a @ [ev]\<rparr>)"
    by (rule extends_prims(3))
  let ?w0 = "w\<lparr>runningTasks := (runningTasks w)(id' t := None)\<rparr>"
  have e0: "extends w ?w0" by (rule extends_prims(5))
  obtain c w1 where cc: "checkAndClearCanceled (id' t) ?w0 = (c, w1)"
    by (cases "checkAndClearCanceled (id' t) ?w0")
  have e1: "extends w w1" using extends_trans[OF e0 extends_eqs(1)[OF cc]] .
  have e2: "\<And>ev. extends w (w1\<lparr>trace := trace w1 @ [ev]\<rparr>)"
    using extends_trans[OF e1 up] .
  show "extends w (snd (onFulfilled t s v w))"
    using cc e1 e2 st
    by (auto simp: onFulfilled_def invoke_def split: option.splits)
  show "extends w (snd (onRejected t s x w))"
    using cc e1 e2 st
    by (auto simp: onRejected_def invoke_def console_error_def split: option.splits)
  have e3: "\<And>ev. extends w (?w0\<lparr>trace := trace ?w0 @ [ev]\<rparr>)"
    using extends_trans[OF e0 up] .
  show "extends w (snd (onCatch t s x w))"
    using e3 st
    by (auto simp: onCatch_def invoke_def console_error_def split: option.splits)
qed

lemma follows_fire: "follows w (fire x w)"
proof (cases x)
  case (Submit t)
  then show ?thesis using extends_all(2)[of w t] by (simp add: extends_follows)
next
  case (Cancel i)
  then show ?thesis using extends_prims(1)[of w i] by (simp add: extends_follows)
next
  case ClearAll
  then show ?thesis using extends_prims(2)[of w] by (simp add: extends_follows)
next
  case (Settles k s)
  obtain r w' where r: "(case s of
         Fulfils v \<Rightarrow> onFulfilled (ch_task (chains w ! k)) (ch_session (chains w ! k)) v (set_stage k Done w)
       | Rejects x \<Rightarrow> onRejected (ch_task (chains w ! k)) (ch_session (chains w ! k)) x (set_stage k Done w))
       = (r, w')"
    by (cases "case s of
         Fulfils v \<Rightarrow> onFulfilled (ch_task (chains w ! k)) (ch_session (chains w ! k)) v (set_stage k Done w)
       | Rejects x \<Rightarrow> onRejected (ch_task (chains w ! k)) (ch_session (chains w ! k)) x (set_stage k Done w)")
  have fw: "follows w w'" "\<And>st. follows w (set_stage k st w')"
  proof -
    show "follows w w'"
    proof (cases s)
      case (Fulfils v)
      with r follows_trans[OF follows_set_stage extends_follows[OF extends_handlers(1)]]
      show ?thesis by (metis settlement.simps(5) snd_conv)
    next
      case (Rejects x)
      with r follows_trans[OF follows_set_stage extends_follows[OF extends_handlers(2)]]
      show ?thesis by (metis settlement.simps(6) snd_conv)
    qed
    then show "\<And>st. follows w (set_stage k st w')"
      using follows_trans[OF _ follows_set_stage] by blast
  qed
  show ?thesis using Settles r fw
    by (cases r) (simp_all add: settle_def)
next
  case (CatchRuns k)
  have "follows w (snd (onCatch t ss v (set_stage k Done w)))" for t ss v
    using follows_trans[OF follows_set_stage extends_follows[OF extends_handlers(3)]] .
  then show ?thesis using CatchRuns
    by (auto simp: catch_runs_def split: stage.splits)
qed

lemma follows_run: "follows w (run xs w)"
proof (induction xs arbitrary: w)
  case Nil
  show ?case by (simp add: run_def)
next
  case (Cons x xs)
  have "run (x # xs) w = run xs (fire x w)" by (simp add: run_def)
  with follows_trans[OF follows_fire Cons.IH] show ?case by simp
qed

lemma reachable_chains_ok: "chains_ok (run xs create)"
  using follows_run[of create xs] by (simp add: follows_def chains_ok_def create_def)

lemma stale_after_clear:
  assumes "chains_ok w" and "k < length (chains w)"
  shows "k < length (chains (run xs (clear w)))"
    and "ch_session (chains (run xs (clear w)) ! k) \<noteq> sessionId (run xs (clear w))"
proof -
  let ?w' = "run xs (clear w)"
  from follows_run[of "clear w" xs]
  obtain more where s: "sessionId (clear w) \<le> sessionId ?w'"
    and m: "map ch_session (chains ?w') = map ch_session (chains (clear w)) @ more"
    unfolding follows_def by auto
  have c: "chains (clear w) = chains w" "sessionId (clear w) = sessionId w + 1"
    by (simp_all add: clear_def)
  from m c have len: "length (chains ?w') = length (chains w) + length more"
    by (metis length_append length_map)
  with assms(2) show k: "k < length (chains ?w')" by simp
  have "ch_session (chains ?w' ! k) = map ch_session (chains ?w') ! k"
    using k by simp
  also have "\<dots> = map ch_session (chains w) ! k"
    using m c assms(2) by (simp add: nth_append)
  also have "\<dots> = ch_session (chains w ! k)" using assms(2) by simp
  finally have "ch_session (chains ?w' ! k) = ch_session (chains w ! k)" .
  moreover have "ch_session (chains w ! k) \<le> sessionId w"
    using assms by (simp add: chains_ok_def list_all_length)
  ultimately show "ch_session (chains ?w' ! k) \<noteq> sessionId ?w'"
    using s c by simp
qed

lemma set_stage_fields [simp]:
  "sessionId (set_stage k st w) = sessionId w"
  "trace (set_stage k st w) = trace w"
  "tasks (set_stage k st w) = tasks w"
  "running (set_stage k st w) = running w"
  "runningTasks (set_stage k st w) = runningTasks w"
  "taskCancelSet (set_stage k st w) = taskCancelSet w"
  "nextId (set_stage k st w) = nextId w"
  "length (chains (set_stage k st w)) = length (chains w)"
  by (simp_all add: set_stage_def)

lemma stale_handlers:
  assumes "session \<noteq> sessionId w"
  shows "onFulfilled t session v w = (None, w)" "onRejected t session x w = (None, w)"
    "onCatch t session x w = (None, w)"
  using assms by (auto simp: onFulfilled_def onRejected_def onCatch_def)

text \<open>
  A chain registered in \<open>w\<close> is stale in every later state whose session differs from
  that of \<open>w\<close>, whoever called \<^verbatim>\<open>clear()\<close>: a caller or a callable.
\<close>

lemma stale_after_session_change:
  assumes "chains_ok w" and "k < length (chains w)" and "sessionId (run xs w) \<noteq> sessionId w"
  shows "k < length (chains (run xs w))"
    and "ch_session (chains (run xs w) ! k) \<noteq> sessionId (run xs w)"
proof -
  let ?w' = "run xs w"
  from follows_run[of w xs]
  obtain more where s: "sessionId w \<le> sessionId ?w'"
    and m: "map ch_session (chains ?w') = map ch_session (chains w) @ more"
    unfolding follows_def by auto
  from m have len: "length (chains ?w') = length (chains w) + length more"
    by (metis length_append length_map)
  with assms(2) show k: "k < length (chains ?w')" by simp
  have "ch_session (chains ?w' ! k) = map ch_session (chains ?w') ! k"
    using k by simp
  also have "\<dots> = map ch_session (chains w) ! k"
    using m assms(2) by (simp add: nth_append)
  also have "\<dots> = ch_session (chains w ! k)" using assms(2) by simp
  finally have "ch_session (chains ?w' ! k) = ch_session (chains w ! k)" .
  moreover have "ch_session (chains w ! k) \<le> sessionId w"
    using assms by (simp add: chains_ok_def list_all_length)
  ultimately show "ch_session (chains ?w' ! k) \<noteq> sessionId ?w'"
    using s assms(3) by simp
qed

lemma stale_settlement_after_session_change:
  assumes "chains_ok w" and "k < length (chains w)" and "sessionId (run xs w) \<noteq> sessionId w"
  shows "settle k s (run xs w) \<in> {run xs w, set_stage k Done (run xs w)}"
    and "catch_runs k (run xs w) \<in> {run xs w, set_stage k Done (run xs w)}"
proof -
  note st = stale_after_session_change[OF assms]
  show "settle k s (run xs w) \<in> {run xs w, set_stage k Done (run xs w)}"
    using st by (cases s) (simp_all add: settle_def stale_handlers)
  show "catch_runs k (run xs w) \<in> {run xs w, set_stage k Done (run xs w)}"
    using st by (simp add: catch_runs_def stale_handlers split: stage.splits)
qed

lemma step_starts_head:
  assumes "tasks w = n # rest" and "id' n \<notin> taskCancelSet w"
  shows "\<exists>suf. trace (snd (step w)) = trace w @ Started (id' n) (taskDesc (item n)) # suf"
proof -
  let ?w1 = "w\<lparr>tasks := rest, runningTasks := (runningTasks w)(id' n \<mapsto> n)\<rparr>"
  have "step w = handleFunctionTask n ?w1"
    using assms by (subst step.simps) (simp add: checkAndClearCanceled_def)
  moreover from extends_all(4)[of ?w1 n]
  obtain suf where "trace (snd (handleFunctionTask n ?w1)) = (trace w @ [Started (id' n) (taskDesc (item n))]) @ suf"
    unfolding extends_def by auto
  ultimately show ?thesis by simp
qed

lemma trace_running_swap:
  "w\<lparr>trace := tr, runningTasks := rt\<rparr> = (w\<lparr>runningTasks := rt, trace := tr\<rparr> :: world)"
  by (cases w) simp

text \<open>Repeated calls of \<^verbatim>\<open>clear()\<close> on a fresh manager only move the session counter.\<close>

lemma run_clears:
  "run (replicate n ClearAll @ xs) create = run xs (if n = 0 then create else clear (create\<lparr>sessionId := n - 1\<rparr>))"
proof -
  have "run (replicate n ClearAll) w = (if n = 0 then w else clear (w\<lparr>sessionId := sessionId w + n - 1\<rparr>))" for w
    by (induction n arbitrary: w) (auto simp: run_def clear_def)
  from this[of create] show ?thesis by (simp add: run_def create_def)
qed

text \<open>
  Within one session the identifiers increase as long as the shifted counter fits into
  32 bits.
\<close>

lemma mk_id_strict:
  assumes "Suc n * 2 ^ (s mod 32) < 2 ^ 32"
  shows "mk_id n s < mk_id (Suc n) s"
proof -
  have "n * 2 ^ (s mod 32) < Suc n * 2 ^ (s mod 32)" by simp
  with assms show ?thesis by (simp add: mk_id_def)
qed

text \<open>While the manager is running, a submission only joins the queue.\<close>

lemma submit_while_running_only_queues:
  assumes "running w"
  shows "fire (Submit t) w =
           w\<lparr>nextId := nextId w + 1,
              tasks := tasks w @ [\<lparr>id' = mk_id (nextId w) (sessionId w), item = t\<rparr>]\<rparr>"
  using assms by (simp add: addTask.simps Let_def)

subsection \<open>The scenarios of the test suite\<close>

text \<open>
  The embedding gives the sequences that the repository's tests expect. A promise that a
  test settles after a delay is settled here by the environment, in the order of the
  delays. Only the events of the manager are listed: the tests also record what runs
  inside their promises.
\<close>

lemma test1_basicSync:
  "trace (run [Submit (sync_item ''1'' ''result1''), Submit (sync_item ''2'' ''result2'')] create)
     = [Started 1 ''1'', Resolved 1 ''result1'', Started 2 ''2'', Resolved 2 ''result2'']"
  by (simp add: eval_simps sync_item_def)

lemma test2_basicAsync:
  "trace (run [Submit (async_item ''1''), Submit (async_item ''2''),
               Settles 0 (Fulfils ''result1''), Settles 1 (Fulfils ''result2'')] create)
     = [Started 1 ''1'', Resolved 1 ''result1'', Started 2 ''2'', Resolved 2 ''result2'']"
  by (simp add: eval_simps async_item_def)

lemma test3_syncErrorWithCatch:
  "trace (run [Submit (ITask (Callable [] (Raises ''e'')) ''1'' None None None (Some (Callback None))),
               Submit (value_task ''2'' ''v'')] create)
     = [Started 1 ''1'', Caught 1 ''e'', Started 2 ''2'']"
  by (simp add: eval_simps value_task_def)

lemma test4_syncErrorWithoutCatch:
  "trace (run [Submit (ITask (Callable [] (Raises ''e'')) ''1'' None None None None),
               Submit (value_task ''2'' ''v'')] create)
     = [Started 1 ''1'', ConsoleError SyncUncaught ''1'' ''e'', Started 2 ''2'']"
  by (simp add: eval_simps value_task_def)

lemma test5_asyncErrorWithReject:
  "trace (run [Submit (ITask (Callable [] Deferred) ''1'' None None (Some (Callback None)) None),
               Submit (value_task ''2'' ''v''), Settles 0 (Rejects ''why'')] create)
     = [Started 1 ''1'', Rejected 1 ''why'', Started 2 ''2'']"
  by (simp add: eval_simps value_task_def)

lemma test6_asyncErrorWithCatch:
  "trace (run [Submit (ITask (Callable [] Deferred) ''1'' None None None (Some (Callback None))),
               Submit (value_task ''2'' ''v''), Settles 0 (Rejects ''why'')] create)
     = [Started 1 ''1'', Caught 1 ''why'', Started 2 ''2'']"
  by (simp add: eval_simps value_task_def)

lemma test7_asyncErrorWithoutHandlers:
  "trace (run [Submit (deferred_task ''1''), Submit (value_task ''2'' ''v''),
               Settles 0 (Rejects ''why'')] create)
     = [Started 1 ''1'', ConsoleError PromiseUncaught ''1'' ''why'', Started 2 ''2'']"
  by (simp add: eval_simps deferred_task_def value_task_def)

lemma test8_cancelTask:
  "trace (run [Submit (deferred_task ''0''), Submit (value_task ''1'' ''v''),
               Submit (value_task ''2'' ''v''), Submit (value_task ''3'' ''v''),
               Cancel 2, Cancel 4, Settles 0 (Fulfils ''u'')] create)
     = [Started 1 ''0'', Started 3 ''2'']"
  by (simp add: eval_simps deferred_task_def value_task_def)

lemma test9_cancelRunningAsyncTask:
  "trace (run [Submit (async_item ''1''), Cancel 1, Settles 0 (Fulfils ''result1'')] create)
     = [Started 1 ''1'']"
  by (simp add: eval_simps async_item_def)

lemma test10_noWaitAsync:
  "trace (run [Submit (detached_item ''1''), Submit (detached_item ''2''),
               Submit (value_task ''3'' ''v''),
               Settles 1 (Fulfils ''result2''), Settles 0 (Fulfils ''result1'')] create)
     = [Started 1 ''1'', Started 2 ''2'', Started 3 ''3'',
        Resolved 2 ''result2'', Resolved 1 ''result1'']"
  by (simp add: eval_simps value_task_def detached_item_def)

lemma test11_clearTasks:
  "trace (run [Submit (deferred_task ''0''), Submit (value_task ''1'' ''v''),
               Submit (value_task ''2'' ''v''), Submit (value_task ''3'' ''v''),
               ClearAll, Settles 0 (Fulfils ''u'')] create)
     = [Started 1 ''0'']"
  by (simp add: eval_simps deferred_task_def value_task_def)

lemma test15_rejectAndCatchBoth:
  "trace (run [Submit handled_task, Settles 0 (Rejects ''e'')] create)
     = [Started 1 ''R'', Rejected 1 ''e'']"
  by (simp add: eval_simps handled_task_def)

subsection \<open>Serial execution when no generic-error callback raises\<close>

text \<open>
  With calm work items only, \<^verbatim>\<open>_step\<close> is entered in ready states only, no exception
  leaves it, and every method and every promise handler keeps the loop serial. The proof
  follows the mutual recursion of the methods.
\<close>

lemma calm_task_sel:
  "calm_task t \<Longrightarrow> calm_actions (calls (task t)) \<and> donotWaitAsync t \<noteq> Some True
     \<and> (\<forall>cb. catch t = Some cb \<longrightarrow> cb_raises cb = None)"
  by (cases t; cases "task t") (auto split: option.splits)

lemma live_upd [simp]:
  "live (w\<lparr>trace := tr\<rparr>) = live w"
  "live (w\<lparr>runningTasks := rt\<rparr>) = live w"
  "live (w\<lparr>taskCancelSet := cs\<rparr>) = live w"
  "live (w\<lparr>nextId := n\<rparr>) = live w"
  "live (w\<lparr>tasks := ts\<rparr>) = live w"
  "live (w\<lparr>running := b\<rparr>) = live w"
  by (simp_all add: live_def)

lemma calm_world_upd [simp]:
  "calm_world (w\<lparr>trace := tr\<rparr>) = calm_world w"
  "calm_world (w\<lparr>runningTasks := rt\<rparr>) = calm_world w"
  "calm_world (w\<lparr>taskCancelSet := cs\<rparr>) = calm_world w"
  "calm_world (w\<lparr>nextId := n\<rparr>) = calm_world w"
  "calm_world (w\<lparr>running := b\<rparr>) = calm_world w"
  by (simp_all add: calm_world_def)

lemma chains_ok_upd [simp]:
  "chains_ok (w\<lparr>trace := tr\<rparr>) = chains_ok w"
  "chains_ok (w\<lparr>runningTasks := rt\<rparr>) = chains_ok w"
  "chains_ok (w\<lparr>taskCancelSet := cs\<rparr>) = chains_ok w"
  "chains_ok (w\<lparr>nextId := n\<rparr>) = chains_ok w"
  "chains_ok (w\<lparr>tasks := ts\<rparr>) = chains_ok w"
  "chains_ok (w\<lparr>running := b\<rparr>) = chains_ok w"
  by (simp_all add: chains_ok_def)

lemma ready_serial: "ready w \<Longrightarrow> serial w"
  by (simp add: ready_def)

lemma serial_upd [simp]:
  "serial (w\<lparr>trace := tr\<rparr>) = serial w"
  "serial (w\<lparr>runningTasks := rt\<rparr>) = serial w"
  "serial (w\<lparr>taskCancelSet := cs\<rparr>) = serial w"
  "serial (w\<lparr>nextId := n\<rparr>) = serial w"
  by (simp_all add: serial_def)

lemma ready_upd [simp]:
  "ready (w\<lparr>trace := tr\<rparr>) = ready w"
  "ready (w\<lparr>runningTasks := rt\<rparr>) = ready w"
  "ready (w\<lparr>taskCancelSet := cs\<rparr>) = ready w"
  "ready (w\<lparr>nextId := n\<rparr>) = ready w"
  by (simp_all add: ready_def)

lemma serial_cancel [simp]: "serial (cancelTask i w) = serial w" "ready (cancelTask i w) = ready w"
  by (simp_all add: cancelTask_def)

lemma live_clear: "chains_ok w \<Longrightarrow> live (clear w) = {}"
  by (auto simp: live_def clear_def chains_ok_def list_all_length)

lemma serial_clear:
  assumes "serial w"
  shows "serial (clear w)"
proof -
  from assms have co: "chains_ok w" and cw: "calm_world w" by (simp_all add: serial_def)
  have "calm_world (clear w)" using cw by (simp add: calm_world_def clear_def)
  moreover have "chains_ok (clear w)" using co by (auto simp: chains_ok_def clear_def list_all_iff)
  moreover have "tasks (clear w) = []" by (simp add: clear_def)
  ultimately show ?thesis using live_clear[OF co] by (simp add: serial_def)
qed

lemma calm_world_push:
  "calm_task t \<Longrightarrow> calm_world w \<Longrightarrow> calm_world (w\<lparr>tasks := tasks w @ [\<lparr>id' = i, item = t\<rparr>]\<rparr>)"
  by (simp add: calm_world_def)

lemma pushed_fields:
  "live (w\<lparr>nextId := n, tasks := ts\<rparr>) = live w"
  "chains_ok (w\<lparr>nextId := n, tasks := ts\<rparr>) = chains_ok w"
  "live (w\<lparr>nextId := n, tasks := ts, running := b\<rparr>) = live w"
  "chains_ok (w\<lparr>nextId := n, tasks := ts, running := b\<rparr>) = chains_ok w"
  by (simp_all add: live_def chains_ok_def)

lemma calm_world_pushed:
  "calm_task t \<Longrightarrow> calm_world w \<Longrightarrow>
     calm_world (w\<lparr>nextId := n, tasks := tasks w @ [\<lparr>id' = i, item = t\<rparr>]\<rparr>)"
  "calm_task t \<Longrightarrow> calm_world w \<Longrightarrow>
     calm_world (w\<lparr>nextId := n, tasks := tasks w @ [\<lparr>id' = i, item = t\<rparr>], running := b\<rparr>)"
  by (simp_all add: calm_world_def)

lemma serial_push:
  assumes "calm_task t" and "serial w" and "running w"
  shows "serial (w\<lparr>nextId := n, tasks := tasks w @ [\<lparr>id' = i, item = t\<rparr>]\<rparr>)"
  using assms calm_world_pushed(1)[OF assms(1), of w] by (simp add: serial_def pushed_fields)

lemma ready_push:
  "calm_task t \<Longrightarrow> ready w \<Longrightarrow>
     ready (w\<lparr>nextId := n, tasks := tasks w @ [\<lparr>id' = i, item = t\<rparr>]\<rparr>)"
  using serial_push[of t w] by (simp add: ready_def pushed_fields)

lemma ready_start:
  assumes "calm_task t" and "serial w" and "\<not> running w"
  shows "ready (w\<lparr>nextId := n, tasks := tasks w @ [\<lparr>id' = i, item = t\<rparr>], running := True\<rparr>)"
proof -
  from assms(2,3) have l: "live w = {}" by (auto simp: serial_def)
  from assms(2) have "calm_world w" "chains_ok w" by (simp_all add: serial_def)
  with calm_world_pushed(2)[OF assms(1), of w] l show ?thesis
    by (simp add: ready_def serial_def pushed_fields)
qed

lemma ready_pop:
  assumes "ready w" and "tasks w = t # ts"
  shows "ready (w\<lparr>tasks := ts\<rparr>)" and "calm_task (item t)"
proof -
  from assms have cw: "calm_world w" by (simp add: ready_def serial_def)
  with assms(2) show "calm_task (item t)" by (simp add: calm_world_def)
  from cw assms(2) have "calm_world (w\<lparr>tasks := ts\<rparr>)" by (simp add: calm_world_def)
  with assms(1) show "ready (w\<lparr>tasks := ts\<rparr>)" by (simp add: ready_def serial_def)
qed

lemma serial_stop:
  assumes "ready w" and "tasks w = []"
  shows "serial (w\<lparr>running := False\<rparr>)"
  using assms by (simp add: ready_def serial_def)

lemma live_register:
  "live (w\<lparr>chains := chains w @ [\<lparr>ch_task = t, ch_session = s, ch_stage = Pending\<rparr>]\<rparr>)
     = live w \<union> (if s = sessionId w then {length (chains w)} else {})"
  by (auto simp: live_def nth_append less_Suc_eq)

lemma serial_register:
  assumes "calm_task (item t)" and "serial w" and "s \<le> sessionId w"
    and "s = sessionId w \<longrightarrow> ready w"
  shows "serial (w\<lparr>chains := chains w @ [\<lparr>ch_task = t, ch_session = s, ch_stage = Pending\<rparr>]\<rparr>)"
proof -
  let ?w1 = "w\<lparr>chains := chains w @ [\<lparr>ch_task = t, ch_session = s, ch_stage = Pending\<rparr>]\<rparr>"
  have cw: "calm_world ?w1" using assms(1,2) by (simp add: serial_def calm_world_def)
  have co: "chains_ok ?w1" using assms(2,3) by (simp add: serial_def chains_ok_def)
  have rt: "running ?w1 = running w" "tasks ?w1 = tasks w" by simp_all
  show ?thesis
  proof (cases "s = sessionId w")
    case True
    with assms(4) have "live w = {}" "running w" by (simp_all add: ready_def)
    with True have "live ?w1 = {length (chains w)}" by (simp add: live_register)
    with cw co \<open>running w\<close> show ?thesis unfolding serial_def rt by simp
  next
    case False
    then have "live ?w1 = live w" by (simp add: live_register)
    with cw co assms(2) show ?thesis unfolding serial_def rt by simp
  qed
qed

lemma ready_eqs:
  "checkAndClearCanceled i w = (c, w') \<Longrightarrow> ready w' = ready w \<and> serial w' = serial w \<and> sessionId w' = sessionId w"
  "invoke cb ev w = (x, w') \<Longrightarrow> ready w' = ready w \<and> serial w' = serial w \<and> sessionId w' = sessionId w"
  "catch_block t s e w = (x, w') \<Longrightarrow> ready w' = ready w \<and> serial w' = serial w \<and> sessionId w' = sessionId w"
  "try_resolve t s v w = (x, w') \<Longrightarrow> ready w' = ready w \<and> serial w' = serial w \<and> sessionId w' = sessionId w"
  by (auto simp: checkAndClearCanceled_def invoke_def console_error_def
      catch_block_def try_resolve_def split: option.splits if_splits)

lemma catch_block_calm:
  "calm_task (item t) \<Longrightarrow> fst (catch_block t s e w) = None"
  by (auto simp: catch_block_def invoke_def dest: calm_task_sel split: option.splits)

lemma session_mono:
  "sessionId w \<le> sessionId (snd (run_calls as w))"
  "sessionId w \<le> sessionId (snd (addTask t w))"
  "sessionId w \<le> sessionId (snd (step w))"
  using extends_all(1)[of w as] extends_all(2)[of w t] extends_all(3)[of w]
  by (simp_all add: extends_def)

lemma serial_all:
  "calm_actions as \<Longrightarrow> serial w \<Longrightarrow>
     fst (run_calls as w) = None \<and> serial (snd (run_calls as w))
     \<and> (ready w \<and> sessionId (snd (run_calls as w)) = sessionId w \<longrightarrow> ready (snd (run_calls as w)))"
  "calm_task t \<Longrightarrow> serial w \<Longrightarrow>
     (\<exists>i. fst (addTask t w) = Inr i) \<and> serial (snd (addTask t w))
     \<and> (ready w \<longrightarrow> ready (snd (addTask t w)) \<and> sessionId (snd (addTask t w)) = sessionId w)"
  "ready w \<Longrightarrow> fst (step w) = None \<and> serial (snd (step w))"
  "calm_task (item ti) \<Longrightarrow> ready w \<Longrightarrow>
     fst (handleFunctionTask ti w) = None \<and> serial (snd (handleFunctionTask ti w))"
  "calm_task (item ti) \<Longrightarrow> serial w \<Longrightarrow> s \<le> sessionId w \<Longrightarrow> (s = sessionId w \<longrightarrow> ready w) \<Longrightarrow>
     fst (handleAsyncTask ti s w) = None \<and> serial (snd (handleAsyncTask ti s w))"
proof (induction as w and t w and w and ti w and ti s w
    rule: run_calls_addTask_step_handleFunctionTask_handleAsyncTask.induct)
  case (1 w)
  then show ?case by simp
next
  case (2 i as w)
  from "2.prems" have "calm_actions as" "serial (cancelTask i w)" by simp_all
  from "2.IH"[OF this] show ?case by (simp add: cancelTask_def)
next
  case (3 as w)
  from "3.prems" have ca: "calm_actions as" and sc: "serial (clear w)"
    by (simp_all add: serial_clear)
  note ih = "3.IH"[OF ca sc]
  have "sessionId (clear w) \<le> sessionId (snd (run_calls as (clear w)))" by (rule session_mono)
  then have "sessionId (snd (run_calls as (clear w))) \<noteq> sessionId w" by (simp add: clear_def)
  with ih show ?case by simp
next
  case (4 t as w)
  from "4.prems" have ct: "calm_task t" and ca: "calm_actions as" by simp_all
  obtain r w' where a: "addTask t w = (r, w')" by (cases "addTask t w")
  from "4.IH"(1)[OF ct "4.prems"(2)] a
  obtain i where r: "r = Inr i" and sw: "serial w'"
    and rw: "ready w \<longrightarrow> ready w' \<and> sessionId w' = sessionId w" by auto
  from "4.IH"(2)[OF a[symmetric] r ca sw]
  have ih: "fst (run_calls as w') = None" "serial (snd (run_calls as w'))"
    "ready w' \<and> sessionId (snd (run_calls as w')) = sessionId w' \<longrightarrow> ready (snd (run_calls as w'))"
    by simp_all
  have eq: "run_calls (CallAdd t # as) w = run_calls as w'" using a r by simp
  have m1: "sessionId w \<le> sessionId w'" using session_mono(2)[of w t] a by simp
  have m2: "sessionId w' \<le> sessionId (snd (run_calls as w'))" by (rule session_mono)
  have "ready (snd (run_calls as w'))"
    if "ready w" "sessionId (snd (run_calls as w')) = sessionId w"
  proof -
    from that(1) rw have "ready w'" "sessionId w' = sessionId w" by simp_all
    with that(2) ih(3) show ?thesis by simp
  qed
  with ih show ?case unfolding eq by blast
next
  case (5 t w)
  let ?i = "mk_id (nextId w) (sessionId w)"
  let ?w1 = "w\<lparr>nextId := nextId w + 1, tasks := tasks w @ [\<lparr>id' = ?i, item = t\<rparr>]\<rparr>"
  show ?case
  proof (cases "running w")
    case True
    then have eq: "addTask t w = (Inr ?i, ?w1)" by (simp add: addTask.simps Let_def)
    have s1: "serial ?w1" using serial_push[OF "5.prems"(1) "5.prems"(2) True] .
    have r1: "ready w \<longrightarrow> ready ?w1" using ready_push[OF "5.prems"(1)] by blast
    from s1 r1 show ?thesis unfolding eq by simp
  next
    case False
    let ?w2 = "?w1\<lparr>running := True\<rparr>"
    have rd: "ready ?w2" using ready_start[OF "5.prems"(1) "5.prems"(2) False] .
    from False have nr: "\<not> running ?w1" by simp
    from "5.IH"[OF refl refl nr rd]
    have ih: "fst (step ?w2) = None" "serial (snd (step ?w2))" by simp_all
    have eq: "addTask t w = (Inr ?i, snd (step ?w2))"
      using False ih(1) by (cases "step ?w2") (simp add: addTask.simps Let_def)
    from False have "\<not> ready w" by (simp add: ready_def)
    with ih(2) show ?thesis unfolding eq by simp
  qed
next
  case (6 w)
  note rd = "6.prems"
  show ?case
  proof (cases "tasks w")
    case Nil
    then have eq: "step w = (None, w\<lparr>running := False\<rparr>)" by (simp add: step.simps)
    from serial_stop[OF rd Nil] show ?thesis unfolding eq by simp
  next
    case (Cons t ts)
    note pop = ready_pop[OF rd Cons]
    obtain c w1 where cc: "checkAndClearCanceled (id' t) (w\<lparr>tasks := ts\<rparr>) = (c, w1)"
      by (cases "checkAndClearCanceled (id' t) (w\<lparr>tasks := ts\<rparr>)")
    from ready_eqs(1)[OF cc] pop(1) have r1: "ready w1" by simp
    show ?thesis
    proof (cases c)
      case True
      then have ct: "c = True" by simp
      from "6.IH"(1)[OF Cons cc[symmetric] ct r1]
      show ?thesis using Cons cc True by (simp add: step.simps)
    next
      case False
      then have cf: "c = False" by simp
      let ?w2 = "w1\<lparr>runningTasks := (runningTasks w1)(id' t \<mapsto> t)\<rparr>"
      from r1 have r2: "ready ?w2" by simp
      from "6.IH"(2)[OF Cons cc[symmetric] cf pop(2) r2]
      show ?thesis using Cons cc False by (simp add: step.simps)
    qed
  qed
next
  case (7 t w)
  note ct = "7.prems"(1) and rd = "7.prems"(2)
  let ?w0 = "w\<lparr>trace := trace w @ [Started (id' t) (taskDesc (item t))]\<rparr>"
  have r0: "ready ?w0" "serial ?w0" using rd by (simp_all add: ready_def)
  obtain thrown w1 where rc: "run_calls (calls (task (item t))) ?w0 = (thrown, w1)"
    by (cases "run_calls (calls (task (item t))) ?w0")
  from calm_task_sel[OF ct] have ca: "calm_actions (calls (task (item t)))"
    and cn: "\<And>cb. catch (item t) = Some cb \<Longrightarrow> cb_raises cb = None" by simp_all
  from "7.IH"(1)[OF ca r0(2)] rc r0(1)
  have th: "thrown = None" and s1: "serial w1"
    and r1: "sessionId w1 = sessionId w \<Longrightarrow> ready w1" by simp_all
  have m1: "sessionId w \<le> sessionId w1" using session_mono(1)[of ?w0 "calls (task (item t))"] rc by simp
  let ?res = "case thrown of Some e \<Rightarrow> Raises e | None \<Rightarrow> ending (task (item t))"
  let ?mid = "case ?res of
                   Deferred \<Rightarrow>
                     (case handleAsyncTask t (sessionId w) w1 of
                        (None, w2) \<Rightarrow> (True, None, w2)
                      | (Some e, w2) \<Rightarrow> (True, catch_block t (sessionId w) e w2))
                 | Returns v \<Rightarrow>
                     (case try_resolve t (sessionId w) v w1 of
                        (None, w2) \<Rightarrow> (False, None, w2)
                      | (Some e, w2) \<Rightarrow> (False, catch_block t (sessionId w) e w2))
                 | Raises e \<Rightarrow> (False, catch_block t (sessionId w) e w1)"
  obtain isAsync pending w3 where mid: "?mid = (isAsync, pending, w3)" by (cases ?mid)
  have cbn: "\<And>e u. fst (catch_block t (sessionId w) e u) = None"
    using catch_block_calm[OF ct] .
  have b3: "pending = None \<and> serial w3
            \<and> (\<not> isAsync \<and> sessionId w3 = sessionId w \<longrightarrow> ready w3)"
  proof (cases ?res)
    case (Returns v)
    obtain r w2 where tr: "try_resolve t (sessionId w) v w1 = (r, w2)"
      by (cases "try_resolve t (sessionId w) v w1")
    note e2 = ready_eqs(4)[OF tr]
    show ?thesis
    proof (cases r)
      case None
      with mid Returns tr have "isAsync = False" "pending = None" "w3 = w2" by simp_all
      with e2 s1 r1 Returns show ?thesis by simp
    next
      case (Some e)
      with mid Returns tr have cb: "catch_block t (sessionId w) e w2 = (pending, w3)" "isAsync = False"
        by simp_all
      from cbn[of e w2] cb have "pending = None" by simp
      with ready_eqs(3)[OF cb(1)] e2 s1 r1 cb(2) Returns show ?thesis by simp
    qed
  next
    case (Raises e)
    with mid have cb: "catch_block t (sessionId w) e w1 = (pending, w3)" "isAsync = False"
      by simp_all
    from cbn[of e w1] cb have "pending = None" by simp
    with ready_eqs(3)[OF cb(1)] s1 r1 cb(2) Raises show ?thesis by simp
  next
    case Deferred
    have pre: "sessionId w = sessionId w1 \<longrightarrow> ready w1" using r1 by simp
    from "7.IH"(2)[OF rc[symmetric] Deferred ct s1 m1 pre]
    have h: "fst (handleAsyncTask t (sessionId w) w1) = None"
      "serial (snd (handleAsyncTask t (sessionId w) w1))" by simp_all
    obtain r w2 where ha: "handleAsyncTask t (sessionId w) w1 = (r, w2)"
      by (cases "handleAsyncTask t (sessionId w) w1")
    with h have "r = None" "serial w2" by simp_all
    with mid Deferred ha have "isAsync = True" "pending = None" "w3 = w2" by simp_all
    with \<open>serial w2\<close> show ?thesis by simp
  qed
  have hf: "handleFunctionTask t w =
      (if \<not> isAsync \<and> sessionId w3 = sessionId w
       then (case step (w3\<lparr>runningTasks := (runningTasks w3)(id' t := None)\<rparr>) of
               (Some e, w4) \<Rightarrow> (Some e, w4)
             | (None, w4) \<Rightarrow> (pending, w4))
       else (pending, w3))"
    by (subst handleFunctionTask.simps, unfold rc prod.case mid, rule refl)
  show ?case
  proof (cases "\<not> isAsync \<and> sessionId w3 = sessionId w")
    case True
    let ?w3' = "w3\<lparr>runningTasks := (runningTasks w3)(id' t := None)\<rparr>"
    from True b3 have "ready ?w3'" by simp
    from "7.IH"(3)[OF rc[symmetric] mid[symmetric] refl True this]
    have "fst (step ?w3') = None" "serial (snd (step ?w3'))" by simp_all
    with True b3 show ?thesis by (cases "step ?w3'") (simp add: hf)
  next
    case False
    then have "handleFunctionTask t w = (pending, w3)" by (simp only: hf if_False)
    with b3 show ?thesis by simp
  qed
next
  case (8 t session w)
  from calm_task_sel[OF "8.prems"(1)] have sw: "shouldWait t" by (simp add: shouldWait_def)
  let ?w1 = "w\<lparr>chains := chains w @ [\<lparr>ch_task = t, ch_session = session, ch_stage = Pending\<rparr>]\<rparr>"
  have eq: "handleAsyncTask t session w = (None, ?w1)" using sw by (simp add: handleAsyncTask.simps Let_def)
  from serial_register[OF "8.prems"] show ?case unfolding eq by simp
qed

lemma nth_stage:
  "i < length cs \<Longrightarrow>
     ch_session (cs[k := (cs ! k)\<lparr>ch_stage := st\<rparr>] ! i) = ch_session (cs ! i) \<and>
     ch_stage (cs[k := (cs ! k)\<lparr>ch_stage := st\<rparr>] ! i) = (if i = k then st else ch_stage (cs ! i))"
  by (cases "i = k") simp_all

lemma live_set_stage:
  "live (set_stage k Done w) = live w - {k}"
  "k < length (chains w) \<Longrightarrow> st \<noteq> Done \<Longrightarrow>
     live (set_stage k st w) = (if ch_session (chains w ! k) = sessionId w then insert k (live w) else live w - {k})"
proof -
  have m: "\<And>i st. i \<in> live (set_stage k st w) \<longleftrightarrow>
      i < length (chains w) \<and> ch_session (chains w ! i) = sessionId w \<and>
      (if i = k then st else ch_stage (chains w ! i)) \<noteq> Done"
    using nth_stage[of _ "chains w" k] by (auto simp: live_def set_stage_def)
  have l: "\<And>i. i \<in> live w \<longleftrightarrow>
      i < length (chains w) \<and> ch_session (chains w ! i) = sessionId w \<and> ch_stage (chains w ! i) \<noteq> Done"
    by (simp add: live_def)
  show "live (set_stage k Done w) = live w - {k}"
    by (rule set_eqI) (simp add: m l)
  assume "k < length (chains w)" "st \<noteq> Done"
  then show "live (set_stage k st w) = (if ch_session (chains w ! k) = sessionId w then insert k (live w) else live w - {k})"
    by (intro set_eqI) (auto simp: m l)
qed

lemma list_all_stage:
  "list_all (\<lambda>c. Q (ch_task c)) (cs[k := (cs ! k)\<lparr>ch_stage := st\<rparr>]) = list_all (\<lambda>c. Q (ch_task c)) cs"
proof -
  have "\<And>i. i < length cs \<Longrightarrow> ch_task (cs[k := (cs ! k)\<lparr>ch_stage := st\<rparr>] ! i) = ch_task (cs ! i)"
    subgoal for i by (cases "i = k") simp_all
    done
  then show ?thesis by (simp add: list_all_length)
qed

lemma calm_world_set_stage: "calm_world (set_stage k st w) = calm_world w"
  using list_all_stage[of "\<lambda>t. calm_task (item t)" "chains w" k st]
  by (simp add: calm_world_def set_stage_def)

lemma chains_ok_set_stage: "chains_ok w \<Longrightarrow> chains_ok (set_stage k st w)"
  using follows_set_stage[of w k st] by (simp add: follows_def)

lemma serial_done:
  assumes "serial w"
  shows "serial (set_stage k Done w)"
    and "k \<in> live w \<Longrightarrow> ready (set_stage k Done w)"
proof -
  from assms have u: "\<And>i j. i \<in> live w \<Longrightarrow> j \<in> live w \<Longrightarrow> i = j"
    and r: "live w \<noteq> {} \<Longrightarrow> running w" and q: "\<not> running w \<Longrightarrow> tasks w = []"
    and cw: "calm_world w" and co: "chains_ok w"
    by (auto simp: serial_def)
  show s: "serial (set_stage k Done w)"
    unfolding serial_def live_set_stage(1) calm_world_set_stage
    using u r q cw chains_ok_set_stage[OF co] by auto
  assume k: "k \<in> live w"
  with u have "live w - {k} = {}" by auto
  moreover from k r have "running w" by auto
  ultimately show "ready (set_stage k Done w)"
    using s by (simp add: ready_def live_set_stage(1))
qed

lemma serial_thrown:
  assumes "ready w" and "k < length (chains w)"
  shows "serial (set_stage k (Thrown e) w)"
proof -
  from assms(1) have s: "serial w" and r: "running w" and l: "live w = {}" by (simp_all add: ready_def)
  from s have cw: "calm_world w" and co: "chains_ok w" by (simp_all add: serial_def)
  have "live (set_stage k (Thrown e) w) \<subseteq> {k}"
    using live_set_stage(2)[OF assms(2), of "Thrown e"] l by auto
  then have "\<And>i j. i \<in> live (set_stage k (Thrown e) w) \<Longrightarrow> j \<in> live (set_stage k (Thrown e) w) \<Longrightarrow> i = j"
    by blast
  then show ?thesis
    unfolding serial_def calm_world_set_stage
    using cw chains_ok_set_stage[OF co] r by auto
qed

lemma advance_serial:
  assumes "ready (snd r)" and "length (chains (snd r)) = n"
  shows "settled_well n (case r of (Some e, w2) \<Rightarrow> (Some e, w2)
                         | (None, w2) \<Rightarrow> if b then step w2 else (None, w2))"
proof (cases r)
  case (Pair x w2)
  with assms have r: "ready w2" and l: "length (chains w2) = n" by simp_all
  show ?thesis
  proof (cases x)
    case None
    from serial_all(3)[OF r] r show ?thesis
      by (simp add: Pair None settled_well_def ready_def)
  next
    case (Some e)
    with r l show ?thesis by (simp add: Pair settled_well_def)
  qed
qed

lemma ready_after:
  "ready w \<Longrightarrow> ready (snd (checkAndClearCanceled i w))"
  "ready w \<Longrightarrow> ready (snd (invoke cb ev w))"
  "ready w \<Longrightarrow> ready (console_error k d x w)"
  "length (chains (snd (checkAndClearCanceled i w))) = length (chains w)"
  "length (chains (snd (invoke cb ev w))) = length (chains w)"
  "length (chains (console_error k d x w)) = length (chains w)"
  by (simp_all add: checkAndClearCanceled_def invoke_def console_error_def)

lemma onFulfilled_serial:
  assumes "ready w"
  shows "settled_well (length (chains w)) (onFulfilled t s v w)"
proof (cases "sessionId w = s")
  case False
  with assms show ?thesis by (simp add: onFulfilled_def settled_well_def ready_def)
next
  case True
  let ?w0 = "w\<lparr>runningTasks := (runningTasks w)(id' t := None)\<rparr>"
  obtain c w1 where cc: "checkAndClearCanceled (id' t) ?w0 = (c, w1)"
    by (cases "checkAndClearCanceled (id' t) ?w0")
  have "ready ?w0" using assms by simp
  from ready_after(1)[OF this, of "id' t"] ready_after(4)[of "id' t" ?w0] cc
  have r1: "ready w1" and l1: "length (chains w1) = length (chains w)" by simp_all
  let ?r = "if \<not> c then (case resolve (item t) of
                         Some cb \<Rightarrow> invoke cb (Resolved (id' t) v) w1
                       | None \<Rightarrow> (None, w1))
                 else (None, w1)"
  have "ready (snd ?r) \<and> length (chains (snd ?r)) = length (chains w)"
    using r1 l1 ready_after(2)[OF r1] ready_after(5)[of _ _ w1]
    by (simp split: option.splits)
  then have "settled_well (length (chains w))
     (case ?r of (Some e, w2) \<Rightarrow> (Some e, w2)
               | (None, w2) \<Rightarrow> if shouldWait t then step w2 else (None, w2))"
    using advance_serial by blast
  then show ?thesis using True cc by (simp add: onFulfilled_def)
qed

lemma onRejected_serial:
  assumes "ready w"
  shows "settled_well (length (chains w)) (onRejected t s x w)"
proof (cases "sessionId w = s")
  case False
  with assms show ?thesis by (simp add: onRejected_def settled_well_def ready_def)
next
  case True
  let ?w0 = "w\<lparr>runningTasks := (runningTasks w)(id' t := None)\<rparr>"
  obtain c w1 where cc: "checkAndClearCanceled (id' t) ?w0 = (c, w1)"
    by (cases "checkAndClearCanceled (id' t) ?w0")
  have "ready ?w0" using assms by simp
  from ready_after(1)[OF this, of "id' t"] ready_after(4)[of "id' t" ?w0] cc
  have r1: "ready w1" and l1: "length (chains w1) = length (chains w)" by simp_all
  let ?r = "if \<not> c
                 then (case reject (item t) of
                         Some cb \<Rightarrow> invoke cb (Rejected (id' t) x) w1
                       | None \<Rightarrow>
                           (case catch (item t) of
                              Some cb \<Rightarrow> invoke cb (Caught (id' t) x) w1
                            | None \<Rightarrow>
                                (None, console_error PromiseUncaught (taskDesc (item t)) x w1)))
                 else (None, w1)"
  have "ready (snd ?r) \<and> length (chains (snd ?r)) = length (chains w)"
    using r1 l1 ready_after(2)[OF r1] ready_after(5)[of _ _ w1]
      ready_after(3)[OF r1] ready_after(6)[of _ _ _ w1]
    by (simp split: option.splits)
  then have "settled_well (length (chains w))
     (case ?r of (Some e, w2) \<Rightarrow> (Some e, w2)
               | (None, w2) \<Rightarrow> if shouldWait t then step w2 else (None, w2))"
    using advance_serial by blast
  then show ?thesis using True cc by (simp add: onRejected_def)
qed

lemma onCatch_serial:
  assumes "calm_task (item t)" and "ready w"
  shows "serial (snd (onCatch t s x w))"
proof (cases "sessionId w = s")
  case False
  with assms show ?thesis by (simp add: onCatch_def ready_def)
next
  case True
  let ?w0 = "w\<lparr>runningTasks := (runningTasks w)(id' t := None)\<rparr>"
  have r0: "ready ?w0" using assms by simp
  let ?r = "case catch (item t) of
                   Some cb \<Rightarrow> invoke cb (Caught (id' t) x) ?w0
                 | None \<Rightarrow> (None, console_error HandlerUncaught (taskDesc (item t)) x ?w0)"
  have a: "ready (snd ?r) \<and> length (chains (snd ?r)) = length (chains w)"
    using ready_after(2)[OF r0] ready_after(5)[of _ _ ?w0]
      ready_after(3)[OF r0] ready_after(6)[of _ _ _ ?w0]
    by (simp split: option.splits)
  have n: "fst ?r = None"
    using calm_task_sel[OF assms(1)] by (auto simp: invoke_def split: option.splits)
  from a have "settled_well (length (chains w))
     (case ?r of (Some e, w2) \<Rightarrow> (Some e, w2)
               | (None, w2) \<Rightarrow> if shouldWait t then step w2 else (None, w2))"
    using advance_serial by blast
  moreover have "fst (case ?r of (Some e, w2) \<Rightarrow> (Some e, w2)
               | (None, w2) \<Rightarrow> if shouldWait t then step w2 else (None, w2)) = None"
  proof (cases ?r)
    case (Pair y w2)
    with n have y: "y = None" by simp
    from a Pair have "ready w2" by simp
    from serial_all(3)[OF this] show ?thesis by (simp add: Pair y)
  qed
  ultimately show ?thesis using True by (simp add: onCatch_def settled_well_def)
qed

lemma serial_chain_calm:
  "serial w \<Longrightarrow> k < length (chains w) \<Longrightarrow> calm_task (item (ch_task (chains w ! k)))"
  by (simp add: serial_def calm_world_def list_all_length)

lemma live_iff:
  "k \<in> live w \<longleftrightarrow> k < length (chains w) \<and> ch_session (chains w ! k) = sessionId w
      \<and> ch_stage (chains w ! k) \<noteq> Done"
  by (simp add: live_def)

lemma stale_handlers_id:
  assumes "sessionId w \<noteq> s"
  shows "onFulfilled t s v w = (None, w)" "onRejected t s x w = (None, w)" "onCatch t s x w = (None, w)"
  using assms by (simp_all add: onFulfilled_def onRejected_def onCatch_def)

lemma serial_settle:
  assumes "serial w"
  shows "serial (settle k s w)"
proof (cases "k < length (chains w) \<and> ch_stage (chains w ! k) = Pending")
  case False
  then have "settle k s w = w" by (auto simp: settle_def)
  with assms show ?thesis by simp
next
  case True
  let ?c = "chains w ! k"
  let ?wm = "set_stage k Done w"
  let ?r = "case s of Fulfils v \<Rightarrow> onFulfilled (ch_task ?c) (ch_session ?c) v ?wm
                    | Rejects x \<Rightarrow> onRejected (ch_task ?c) (ch_session ?c) x ?wm"
  have e: "settle k s w = (case ?r of (None, w') \<Rightarrow> w' | (Some e, w') \<Rightarrow> set_stage k (Thrown e) w')"
    using True by (simp add: settle_def)
  show ?thesis
  proof (cases "ch_session ?c = sessionId w")
    case False
    then have "sessionId ?wm \<noteq> ch_session ?c" by simp
    from stale_handlers_id(1,2)[OF this] have "?r = (None, ?wm)"
      by (simp split: settlement.splits)
    with serial_done(1)[OF assms] show ?thesis by (simp add: e)
  next
    case live: True
    with True have "k \<in> live w" by (simp add: live_iff)
    from serial_done(2)[OF assms this] have r: "ready ?wm" .
    have sw: "settled_well (length (chains w)) ?r"
      using onFulfilled_serial[OF r] onRejected_serial[OF r]
      by (simp split: settlement.splits)
    obtain y w' where p: "?r = (y, w')" by (cases ?r)
    show ?thesis
    proof (cases y)
      case None
      with sw p show ?thesis by (simp add: e settled_well_def)
    next
      case (Some ex)
      with sw p True have "ready w'" "k < length (chains w')" by (simp_all add: settled_well_def)
      from serial_thrown[OF this] show ?thesis by (simp add: e p Some)
    qed
  qed
qed

lemma serial_catch_runs:
  assumes "serial w"
  shows "serial (catch_runs k w)"
proof (cases "k < length (chains w)")
  case False
  with assms show ?thesis by (simp add: catch_runs_def)
next
  case True
  let ?c = "chains w ! k"
  let ?wm = "set_stage k Done w"
  show ?thesis
  proof (cases "ch_stage ?c")
    case (Thrown ex)
    have e: "catch_runs k w = snd (onCatch (ch_task ?c) (ch_session ?c) ex ?wm)"
      using True Thrown by (simp add: catch_runs_def)
    show ?thesis
    proof (cases "ch_session ?c = sessionId w")
      case False
      then have "sessionId ?wm \<noteq> ch_session ?c" by simp
      from stale_handlers_id(3)[OF this] serial_done(1)[OF assms] show ?thesis by (simp add: e)
    next
      case live: True
      with True Thrown have "k \<in> live w" by (simp add: live_iff)
      from serial_done(2)[OF assms this] have r: "ready ?wm" .
      from onCatch_serial[OF serial_chain_calm[OF assms True] r] show ?thesis by (simp add: e)
    qed
  qed (use assms True in \<open>simp_all add: catch_runs_def\<close>)
qed

lemma serial_create: "serial create"
  by (simp add: serial_def calm_world_def chains_ok_def live_def create_def)

lemma serial_fire:
  assumes "serial w" and "calm_input x"
  shows "serial (fire x w)"
proof (cases x)
  case (Submit t)
  with assms serial_all(2)[of t w] show ?thesis by simp
next
  case (Cancel i)
  with assms serial_cancel show ?thesis by simp
next
  case ClearAll
  with assms serial_clear show ?thesis by simp
next
  case (Settles k s)
  with serial_settle[OF assms(1)] show ?thesis by simp
next
  case (CatchRuns k)
  with serial_catch_runs[OF assms(1)] show ?thesis by simp
qed

lemma serial_run:
  "serial w \<Longrightarrow> list_all calm_input xs \<Longrightarrow> serial (run xs w)"
proof (induction xs arbitrary: w)
  case Nil
  then show ?case by (simp add: run_def)
next
  case (Cons x xs)
  from Cons.prems have "serial (fire x w)" by (simp add: serial_fire)
  from Cons.IH[OF this] Cons.prems(2) show ?case by (simp add: run_def)
qed

lemma quiet_while_live:
  assumes "serial w" and "k \<in> live w"
    and "x \<noteq> ClearAll" and "\<forall>s. x \<noteq> Settles k s" and "x \<noteq> CatchRuns k"
  shows "trace (fire x w) = trace w"
proof -
  from assms(1,2) have only: "\<And>j. j \<in> live w \<Longrightarrow> j = k" and r: "running w"
    by (auto simp: serial_def)
  show ?thesis
  proof (cases x)
    case (Submit t)
    with r show ?thesis by (simp add: addTask.simps Let_def)
  next
    case (Cancel i)
    then show ?thesis by (simp add: cancelTask_def)
  next
    case ClearAll
    with assms(3) show ?thesis by simp
  next
    case (Settles j s)
    with assms(4) have jk: "j \<noteq> k" by auto
    show ?thesis
    proof (cases "j < length (chains w) \<and> ch_stage (chains w ! j) = Pending")
      case False
      then have "settle j s w = w" by (auto simp: settle_def)
      then show ?thesis by (simp add: Settles)
    next
      case True
      with only[of j] jk have "ch_session (chains w ! j) \<noteq> sessionId w" by (auto simp: live_iff)
      then have "sessionId (set_stage j Done w) \<noteq> ch_session (chains w ! j)" by simp
      from stale_handlers_id(1,2)[OF this] True show ?thesis
        by (simp add: Settles settle_def set_stage_def split: settlement.splits)
    qed
  next
    case (CatchRuns j)
    with assms(5) have jk: "j \<noteq> k" by auto
    show ?thesis
    proof (cases "j < length (chains w)")
      case False
      then show ?thesis by (simp add: CatchRuns catch_runs_def)
    next
      case True
      show ?thesis
      proof (cases "ch_stage (chains w ! j)")
        case (Thrown ex)
        with True only[of j] jk have "ch_session (chains w ! j) \<noteq> sessionId w" by (auto simp: live_iff)
        then have "sessionId (set_stage j Done w) \<noteq> ch_session (chains w ! j)" by simp
        from stale_handlers_id(3)[OF this] True Thrown show ?thesis
          by (simp add: CatchRuns catch_runs_def set_stage_def)
      qed (use True in \<open>simp_all add: CatchRuns catch_runs_def\<close>)
    qed
  qed
qed

text \<open>
  Hence, for calm work items, at most one entry is awaited at any time, and while it is
  awaited nothing reaches a callback or the console and no callable is started, whatever
  the caller submits or cancels and whatever older promises do: only the settlement of the
  awaited entry, the turn of its \<^verbatim>\<open>.catch\<close> handler, or \<^verbatim>\<open>clear\<close> moves the loop on.
\<close>

lemma one_entry_awaited:
  assumes "list_all calm_input xs"
    and "i \<in> live (run xs create)" and "j \<in> live (run xs create)"
  shows "i = j"
  using serial_run[OF serial_create assms(1)] assms(2,3) by (simp add: serial_def)

lemma awaited_entry_blocks_queue:
  assumes "list_all calm_input xs" and "k \<in> live (run xs create)"
    and "x \<noteq> ClearAll" and "\<forall>s. x \<noteq> Settles k s" and "x \<noteq> CatchRuns k"
  shows "trace (fire x (run xs create)) = trace (run xs create)"
  using quiet_while_live[OF serial_run[OF serial_create assms(1)] assms(2-5)] .

subsection \<open>What removes a cancellation mark\<close>

text \<open>
  The cancellation set is written in three places: \<^verbatim>\<open>cancelTask\<close> adds an identifier,
  \<^verbatim>\<open>clear\<close> empties the set, and \<^verbatim>\<open>checkAndClearCanceled\<close> removes the identifier it
  is asked about. The latter is called for an entry that is popped and for an entry whose
  deferred outcome is delivered. Followed through the mutual recursion of the methods,
  this gives \<open>keeps\<close> for every method, handler and input.
\<close>

lemma issued_upd [simp]:
  "issued (w\<lparr>trace := tr\<rparr>) w' = issued w w'"
  "issued (w\<lparr>running := b\<rparr>) w' = issued w w'"
  "issued (w\<lparr>runningTasks := rt\<rparr>) w' = issued w w'"
  "issued (w\<lparr>chains := cs\<rparr>) w' = issued w w'"
  "issued (w\<lparr>tasks := ts\<rparr>) w' = issued w w'"
  "issued (w\<lparr>taskCancelSet := m\<rparr>) w' = issued w w'"
  "issued w (w'\<lparr>trace := tr\<rparr>) = issued w w'"
  "issued w (w'\<lparr>running := b\<rparr>) = issued w w'"
  "issued w (w'\<lparr>runningTasks := rt\<rparr>) = issued w w'"
  "issued w (w'\<lparr>chains := cs\<rparr>) = issued w w'"
  "issued w (w'\<lparr>tasks := ts\<rparr>) = issued w w'"
  "issued w (w'\<lparr>taskCancelSet := m\<rparr>) = issued w w'"
  by (simp_all add: issued_def)

lemma keeps_upd [simp]:
  "keeps D (w\<lparr>trace := tr\<rparr>) w' = keeps D w w'"
  "keeps D (w\<lparr>running := b\<rparr>) w' = keeps D w w'"
  "keeps D (w\<lparr>runningTasks := rt\<rparr>) w' = keeps D w w'"
  "keeps D (w\<lparr>chains := cs\<rparr>) w' = keeps D w w'"
  "keeps D w (w'\<lparr>trace := tr\<rparr>) = keeps D w w'"
  "keeps D w (w'\<lparr>running := b\<rparr>) = keeps D w w'"
  "keeps D w (w'\<lparr>runningTasks := rt\<rparr>) = keeps D w w'"
  "keeps D w (w'\<lparr>chains := cs\<rparr>) = keeps D w w'"
  by (simp_all add: keeps_def)

lemma issued_same [simp]: "issued w w = {}"
  by (simp add: issued_def)

lemma issued_push:
  "nextId w' = Suc (nextId w) \<Longrightarrow> issued w w' = {mk_id (nextId w) (sessionId w)}"
  by (simp add: issued_def)

lemma keeps_refl [simp]: "keeps D w w"
  by (simp add: keeps_def)

lemma issued_split:
  assumes "nextId a \<le> nextId b" and "nextId b \<le> nextId c" and "sessionId b = sessionId a"
  shows "issued a c = issued a b \<union> issued b c"
proof -
  from assms(1,2) have "{nextId a ..< nextId c} = {nextId a ..< nextId b} \<union> {nextId b ..< nextId c}"
    by (rule ivl_disj_un_two(3)[symmetric])
  then have "(\<lambda>n. mk_id n (sessionId a)) ` {nextId a ..< nextId c}
      = (\<lambda>n. mk_id n (sessionId a)) ` {nextId a ..< nextId b}
        \<union> (\<lambda>n. mk_id n (sessionId a)) ` {nextId b ..< nextId c}"
    by (simp only: image_Un)
  then show ?thesis unfolding issued_def assms(3) .
qed

lemma keepsI:
  assumes "sessionId w \<le> sessionId w'" and "nextId w \<le> nextId w'"
    and "sessionId w' = sessionId w \<Longrightarrow>
           taskCancelSet w - (D \<union> id' ` set (tasks w) \<union> issued w w') \<subseteq> taskCancelSet w'"
    and "sessionId w' = sessionId w \<Longrightarrow> id' ` set (tasks w') \<subseteq> id' ` set (tasks w) \<union> issued w w'"
  shows "keeps D w w'"
  unfolding keeps_def using assms by (intro conjI impI)

lemma keepsD:
  assumes "keeps D w w'"
  shows "sessionId w \<le> sessionId w'" and "nextId w \<le> nextId w'"
    and "sessionId w' = sessionId w \<Longrightarrow>
           taskCancelSet w - (D \<union> id' ` set (tasks w) \<union> issued w w') \<subseteq> taskCancelSet w'"
    and "sessionId w' = sessionId w \<Longrightarrow> id' ` set (tasks w') \<subseteq> id' ` set (tasks w) \<union> issued w w'"
  using assms unfolding keeps_def by blast+

lemma marks_step:
  fixes A B C D E Ta Tb I1 I2 :: "nat set"
  assumes "A - (D \<union> Ta \<union> I1) \<subseteq> B" and "Tb \<subseteq> Ta \<union> I1" and "B - (E \<union> Tb \<union> I2) \<subseteq> C"
  shows "A - (D \<union> E \<union> Ta \<union> (I1 \<union> I2)) \<subseteq> C"
  using assms by blast

lemma ids_step:
  fixes Ta Tb Tc I1 I2 :: "nat set"
  assumes "Tb \<subseteq> Ta \<union> I1" and "Tc \<subseteq> Tb \<union> I2"
  shows "Tc \<subseteq> Ta \<union> (I1 \<union> I2)"
  using assms by blast

lemma keeps_trans:
  assumes "keeps D a b" and "keeps E b c"
  shows "keeps (D \<union> E) a c"
proof (rule keepsI)
  from keepsD(1)[OF assms(1)] keepsD(1)[OF assms(2)]
  show "sessionId a \<le> sessionId c" by (rule order_trans)
  from keepsD(2)[OF assms(1)] keepsD(2)[OF assms(2)]
  show n: "nextId a \<le> nextId c" by (rule order_trans)
  assume t: "sessionId c = sessionId a"
  from keepsD(1)[OF assms(1)] keepsD(1)[OF assms(2)] t
  have e: "sessionId b = sessionId a" "sessionId c = sessionId b" by simp_all
  from issued_split[OF keepsD(2)[OF assms(1)] keepsD(2)[OF assms(2)] e(1)]
  have i: "issued a c = issued a b \<union> issued b c" .
  note 1 = keepsD(3,4)[OF assms(1) e(1)]
  note 2 = keepsD(3,4)[OF assms(2) e(2)]
  show "taskCancelSet a - (D \<union> E \<union> id' ` set (tasks a) \<union> issued a c) \<subseteq> taskCancelSet c"
    unfolding i using marks_step[OF 1(1) 1(2) 2(1)] .
next
  assume t: "sessionId c = sessionId a"
  from keepsD(1)[OF assms(1)] keepsD(1)[OF assms(2)] t
  have e: "sessionId b = sessionId a" "sessionId c = sessionId b" by simp_all
  from issued_split[OF keepsD(2)[OF assms(1)] keepsD(2)[OF assms(2)] e(1)]
  have i: "issued a c = issued a b \<union> issued b c" .
  note 1 = keepsD(3,4)[OF assms(1) e(1)]
  note 2 = keepsD(3,4)[OF assms(2) e(2)]
  show "id' ` set (tasks c) \<subseteq> id' ` set (tasks a) \<union> issued a c"
    unfolding i using ids_step[OF 1(2) 2(2)] .
qed

lemma keeps_trans0: "keeps {} a b \<Longrightarrow> keeps {} b c \<Longrightarrow> keeps {} a c"
  using keeps_trans[of "{}" a b "{}" c] by simp

lemma marks_less:
  fixes A X Y :: "nat set"
  shows "A - X \<subseteq> insert i A" and "A - X \<subseteq> A" and "A - insert i X \<subseteq> A - {i}"
    and "X \<subseteq> Y \<Longrightarrow> A - Y \<subseteq> A - X"
  by blast+

lemma keeps_prims:
  "keeps {} w (cancelTask i w)"
  "keeps {} w (clear w)"
  "keeps {} w (w\<lparr>nextId := nextId w + 1,
                 tasks := tasks w @ [\<lparr>id' = mk_id (nextId w) (sessionId w), item = t\<rparr>]\<rparr>)"
proof -
  show "keeps {} w (cancelTask i w)"
    by (rule keepsI) (simp_all add: cancelTask_def marks_less(1))
  show "keeps {} w (clear w)"
    by (rule keepsI) (simp_all add: clear_def)
  let ?w' = "w\<lparr>nextId := nextId w + 1,
                 tasks := tasks w @ [\<lparr>id' = mk_id (nextId w) (sessionId w), item = t\<rparr>]\<rparr>"
  have i: "issued w ?w' = {mk_id (nextId w) (sessionId w)}"
    by (rule issued_push) simp
  show "keeps {} w ?w'"
  proof (rule keepsI)
    show "taskCancelSet w - ({} \<union> id' ` set (tasks w) \<union> issued w ?w') \<subseteq> taskCancelSet ?w'"
      by (simp add: marks_less(2))
    show "id' ` set (tasks ?w') \<subseteq> id' ` set (tasks w) \<union> issued w ?w'"
      unfolding i by simp
  qed simp_all
qed

lemma keeps_eqs:
  "keeps {} w (snd (invoke cb ev w))"
  "keeps {} w (snd (catch_block t s e w))"
  "keeps {} w (snd (try_resolve t s v w))"
  by (simp_all add: invoke_def console_error_def catch_block_def try_resolve_def
      split: option.splits)

lemma keeps_check:
  "keeps {i} w (snd (checkAndClearCanceled i w))"
proof (cases "i \<in> taskCancelSet w")
  case True
  then have e: "snd (checkAndClearCanceled i w) = w\<lparr>taskCancelSet := taskCancelSet w - {i},
                     runningTasks := (runningTasks w)(i := None)\<rparr>"
    by (simp add: checkAndClearCanceled_def)
  show ?thesis unfolding e
    by (rule keepsI) (simp_all add: marks_less(3,4))
next
  case False
  then show ?thesis by (simp add: checkAndClearCanceled_def)
qed

lemma keeps_narrow:
  assumes "keeps D w w'" and "D \<subseteq> id' ` set (tasks w)"
  shows "keeps {} w w'"
proof -
  from assms(2) have "D \<union> id' ` set (tasks w) = id' ` set (tasks w)" by (rule Un_absorb1)
  then have "D \<union> id' ` set (tasks w) \<union> issued w w' = {} \<union> id' ` set (tasks w) \<union> issued w w'"
    by simp
  with assms(1) show ?thesis unfolding keeps_def by simp
qed

lemma keeps_tail:
  assumes "tasks w = t # ts"
  shows "keeps {} w (w\<lparr>tasks := ts\<rparr>)"
proof (rule keepsI)
  show "taskCancelSet w - ({} \<union> id' ` set (tasks w) \<union> issued w (w\<lparr>tasks := ts\<rparr>))
      \<subseteq> taskCancelSet (w\<lparr>tasks := ts\<rparr>)"
    by (simp add: marks_less(2))
  show "id' ` set (tasks (w\<lparr>tasks := ts\<rparr>)) \<subseteq> id' ` set (tasks w) \<union> issued w (w\<lparr>tasks := ts\<rparr>)"
    by (simp add: assms subset_insertI)
qed simp_all

lemma keeps_pop:
  assumes "tasks w = t # ts"
  shows "keeps {} w (snd (checkAndClearCanceled (id' t) (w\<lparr>tasks := ts\<rparr>)))"
proof -
  from keeps_trans[OF keeps_tail[OF assms] keeps_check[of "id' t" "w\<lparr>tasks := ts\<rparr>"]]
  have "keeps {id' t} w (snd (checkAndClearCanceled (id' t) (w\<lparr>tasks := ts\<rparr>)))" by simp
  from keeps_narrow[OF this] assms show ?thesis by simp
qed

lemma keeps_all:
  "keeps {} w (snd (run_calls as w))"
  "keeps {} w (snd (addTask t w))"
  "keeps {} w (snd (step w))"
  "keeps {} w (snd (handleFunctionTask ti w))"
  "keeps {} w (snd (handleAsyncTask ti s w))"
proof (induction as w and t w and w and ti w and ti s w
    rule: run_calls_addTask_step_handleFunctionTask_handleAsyncTask.induct)
  case (1 w)
  show ?case by simp
next
  case (2 i as w)
  from keeps_trans0[OF keeps_prims(1) "2.IH"] show ?case by simp
next
  case (3 as w)
  from keeps_trans0[OF keeps_prims(2) "3.IH"] show ?case by simp
next
  case (4 t as w)
  obtain r w' where a: "addTask t w = (r, w')" by (cases "addTask t w")
  from "4.IH"(1) a have b: "keeps {} w w'" by simp
  show ?case
  proof (cases r)
    case (Inl e)
    with a b show ?thesis by simp
  next
    case (Inr i)
    from "4.IH"(2)[OF a[symmetric] Inr] have "keeps {} w' (snd (run_calls as w'))" .
    from keeps_trans0[OF b this] a Inr show ?thesis by simp
  qed
next
  case (5 t w)
  let ?w1 = "w\<lparr>nextId := nextId w + 1,
                tasks := tasks w @ [\<lparr>id' = mk_id (nextId w) (sessionId w), item = t\<rparr>]\<rparr>"
  have p: "keeps {} w ?w1" by (rule keeps_prims(3))
  show ?case
  proof (cases "running w")
    case True
    with p show ?thesis by (simp add: addTask.simps Let_def)
  next
    case False
    from False "5.IH"[OF refl refl]
    have "keeps {} (?w1\<lparr>running := True\<rparr>) (snd (step (?w1\<lparr>running := True\<rparr>)))"
      by simp
    then have "keeps {} ?w1 (snd (step (?w1\<lparr>running := True\<rparr>)))" by simp
    from keeps_trans0[OF p this]
    show ?thesis using False
      by (simp add: addTask.simps Let_def split: prod.splits option.splits)
  qed
next
  case (6 w)
  show ?case
  proof (cases "tasks w")
    case Nil
    then show ?thesis by (simp add: step.simps)
  next
    case (Cons t ts)
    obtain c w1 where cc: "checkAndClearCanceled (id' t) (w\<lparr>tasks := ts\<rparr>) = (c, w1)"
      by (cases "checkAndClearCanceled (id' t) (w\<lparr>tasks := ts\<rparr>)")
    have w1: "keeps {} w w1" using keeps_pop[OF Cons] cc by simp
    show ?thesis
    proof (cases c)
      case True
      from True have "c = True" by simp
      from "6.IH"(1)[OF Cons cc[symmetric] this] have "keeps {} w1 (snd (step w1))" .
      from keeps_trans0[OF w1 this] True cc Cons show ?thesis by (simp add: step.simps)
    next
      case False
      from False have "c = False" by simp
      let ?w2 = "w1\<lparr>runningTasks := (runningTasks w1)(id' t \<mapsto> t)\<rparr>"
      from "6.IH"(2)[OF Cons cc[symmetric] \<open>c = False\<close>]
      have "keeps {} ?w2 (snd (handleFunctionTask t ?w2))" .
      then have "keeps {} w1 (snd (handleFunctionTask t ?w2))" by simp
      from keeps_trans0[OF w1 this]
      show ?thesis using False cc Cons by (simp add: step.simps)
    qed
  qed
next
  case (7 t w)
  let ?w0 = "w\<lparr>trace := trace w @ [Started (id' t) (taskDesc (item t))]\<rparr>"
  obtain thrown w1 where rc: "run_calls (calls (task (item t))) ?w0 = (thrown, w1)"
    by (cases "run_calls (calls (task (item t))) ?w0")
  from "7.IH"(1) rc have "keeps {} ?w0 w1" by simp
  then have b1: "keeps {} w w1" by simp
  let ?res = "case thrown of Some e \<Rightarrow> Raises e | None \<Rightarrow> ending (task (item t))"
  let ?mid = "case ?res of
                   Deferred \<Rightarrow>
                     (case handleAsyncTask t (sessionId w) w1 of
                        (None, w2) \<Rightarrow> (True, None, w2)
                      | (Some e, w2) \<Rightarrow> (True, catch_block t (sessionId w) e w2))
                 | Returns v \<Rightarrow>
                     (case try_resolve t (sessionId w) v w1 of
                        (None, w2) \<Rightarrow> (False, None, w2)
                      | (Some e, w2) \<Rightarrow> (False, catch_block t (sessionId w) e w2))
                 | Raises e \<Rightarrow> (False, catch_block t (sessionId w) e w1)"
  obtain isAsync pending w3 where mid: "?mid = (isAsync, pending, w3)" by (cases ?mid)
  have cb: "\<And>e u. keeps {} u (snd (catch_block t (sessionId w) e u))" by (rule keeps_eqs(2))
  have b3: "keeps {} w1 w3"
  proof (cases ?res)
    case (Returns v)
    obtain r w2 where tr: "try_resolve t (sessionId w) v w1 = (r, w2)"
      by (cases "try_resolve t (sessionId w) v w1")
    have k: "keeps {} w1 w2" using keeps_eqs(3)[of w1 t "sessionId w" v] tr by simp
    show ?thesis
    proof (cases r)
      case None
      with mid Returns tr k show ?thesis by simp
    next
      case (Some e)
      with mid Returns tr have "w3 = snd (catch_block t (sessionId w) e w2)"
        by (cases "catch_block t (sessionId w) e w2") simp
      with keeps_trans0[OF k cb[of w2 e]] show ?thesis by simp
    qed
  next
    case (Raises e)
    with mid have "w3 = snd (catch_block t (sessionId w) e w1)"
      by (cases "catch_block t (sessionId w) e w1") simp
    with cb[of w1 e] show ?thesis by simp
  next
    case Deferred
    from "7.IH"(2)[OF rc[symmetric] Deferred]
    have h: "keeps {} w1 (snd (handleAsyncTask t (sessionId w) w1))" .
    obtain r w2 where ha: "handleAsyncTask t (sessionId w) w1 = (r, w2)"
      by (cases "handleAsyncTask t (sessionId w) w1")
    from h ha have k: "keeps {} w1 w2" by simp
    show ?thesis
    proof (cases r)
      case None
      with mid Deferred ha k show ?thesis by simp
    next
      case (Some e)
      with mid Deferred ha have "w3 = snd (catch_block t (sessionId w) e w2)"
        by (cases "catch_block t (sessionId w) e w2") simp
      with keeps_trans0[OF k cb[of w2 e]] show ?thesis by simp
    qed
  qed
  have hf: "handleFunctionTask t w =
      (if \<not> isAsync \<and> sessionId w3 = sessionId w
       then (case step (w3\<lparr>runningTasks := (runningTasks w3)(id' t := None)\<rparr>) of
               (Some e, w4) \<Rightarrow> (Some e, w4)
             | (None, w4) \<Rightarrow> (pending, w4))
       else (pending, w3))"
    by (subst handleFunctionTask.simps, unfold rc prod.case mid, rule refl)
  from keeps_trans0[OF b1 b3] have b13: "keeps {} w w3" .
  show ?case
  proof (cases "\<not> isAsync \<and> sessionId w3 = sessionId w")
    case True
    let ?w3' = "w3\<lparr>runningTasks := (runningTasks w3)(id' t := None)\<rparr>"
    from "7.IH"(3)[OF rc[symmetric] mid[symmetric] refl True]
    have "keeps {} ?w3' (snd (step ?w3'))" .
    then have "keeps {} w3 (snd (step ?w3'))" by simp
    from keeps_trans0[OF b13 this]
    have "keeps {} w (snd (step ?w3'))" .
    moreover have "snd (handleFunctionTask t w) = snd (step ?w3')"
      using True by (cases "step ?w3'"; cases "fst (step ?w3')") (simp_all add: hf)
    ultimately show ?thesis by simp
  next
    case False
    with b13 show ?thesis by (auto simp: hf)
  qed
next
  case (8 t session w)
  let ?w1 = "w\<lparr>chains := chains w @ [\<lparr>ch_task = t, ch_session = session, ch_stage = Pending\<rparr>]\<rparr>"
  show ?case
  proof (cases "shouldWait t")
    case True
    then show ?thesis by (simp add: handleAsyncTask.simps Let_def)
  next
    case False
    from "8.IH"[OF refl False] have "keeps {} ?w1 (snd (step ?w1))" .
    with False show ?thesis by (simp add: handleAsyncTask.simps Let_def)
  qed
qed

lemma keeps_wider: "keeps {} w w' \<Longrightarrow> keeps D w w'"
proof -
  assume a: "keeps {} w w'"
  show ?thesis
  proof (rule keepsI)
    assume s: "sessionId w' = sessionId w"
    have "taskCancelSet w - (D \<union> id' ` set (tasks w) \<union> issued w w')
        \<subseteq> taskCancelSet w - ({} \<union> id' ` set (tasks w) \<union> issued w w')"
      by (rule marks_less(4)) (simp add: Un_assoc)
    also note keepsD(3)[OF a s]
    finally show "taskCancelSet w - (D \<union> id' ` set (tasks w) \<union> issued w w') \<subseteq> taskCancelSet w'" .
  qed (rule keepsD[OF a], rule keepsD[OF a], rule keepsD(4)[OF a])
qed

lemma keeps_advance:
  assumes "keeps D w (snd r)"
  shows "keeps D w (snd (case r of (Some e, w2) \<Rightarrow> (Some e, w2)
                          | (None, w2) \<Rightarrow> if b then step w2 else (None, w2)))"
proof (cases r)
  case (Pair y w2)
  with assms have k: "keeps D w w2" by simp
  show ?thesis
  proof (cases "y = None \<and> b")
    case True
    from keeps_trans[OF k keeps_all(3)[of w2]] True show ?thesis by (simp add: Pair)
  next
    case False
    with k show ?thesis by (cases y) (auto simp: Pair)
  qed
qed

lemma keeps_onFulfilled: "keeps {id' t} w (snd (onFulfilled t s v w))"
proof (cases "sessionId w = s")
  case False
  then show ?thesis by (simp add: onFulfilled_def)
next
  case True
  let ?w0 = "w\<lparr>runningTasks := (runningTasks w)(id' t := None)\<rparr>"
  obtain c w1 where cc: "checkAndClearCanceled (id' t) ?w0 = (c, w1)"
    by (cases "checkAndClearCanceled (id' t) ?w0")
  from keeps_check[of "id' t" ?w0] cc have k1: "keeps {id' t} w w1" by simp
  let ?r = "if \<not> c then (case resolve (item t) of
                         Some cb \<Rightarrow> invoke cb (Resolved (id' t) v) w1
                       | None \<Rightarrow> (None, w1))
                 else (None, w1)"
  have "keeps {} w1 (snd ?r)"
    using keeps_eqs(1)[of w1] by (simp split: option.splits)
  from keeps_trans[OF k1 this] have "keeps {id' t} w (snd ?r)" by simp
  from keeps_advance[OF this, of "shouldWait t"] True cc show ?thesis
    by (simp add: onFulfilled_def)
qed

lemma keeps_onRejected: "keeps {id' t} w (snd (onRejected t s x w))"
proof (cases "sessionId w = s")
  case False
  then show ?thesis by (simp add: onRejected_def)
next
  case True
  let ?w0 = "w\<lparr>runningTasks := (runningTasks w)(id' t := None)\<rparr>"
  obtain c w1 where cc: "checkAndClearCanceled (id' t) ?w0 = (c, w1)"
    by (cases "checkAndClearCanceled (id' t) ?w0")
  from keeps_check[of "id' t" ?w0] cc have k1: "keeps {id' t} w w1" by simp
  let ?r = "if \<not> c
                 then (case reject (item t) of
                         Some cb \<Rightarrow> invoke cb (Rejected (id' t) x) w1
                       | None \<Rightarrow>
                           (case catch (item t) of
                              Some cb \<Rightarrow> invoke cb (Caught (id' t) x) w1
                            | None \<Rightarrow>
                                (None, console_error PromiseUncaught (taskDesc (item t)) x w1)))
                 else (None, w1)"
  have "keeps {} w1 (snd ?r)"
    using keeps_eqs(1)[of w1] by (simp add: console_error_def split: option.splits)
  from keeps_trans[OF k1 this] have "keeps {id' t} w (snd ?r)" by simp
  from keeps_advance[OF this, of "shouldWait t"] True cc show ?thesis
    by (simp add: onRejected_def)
qed

lemma keeps_onCatch: "keeps {} w (snd (onCatch t s x w))"
proof (cases "sessionId w = s")
  case False
  then show ?thesis by (simp add: onCatch_def)
next
  case True
  let ?w0 = "w\<lparr>runningTasks := (runningTasks w)(id' t := None)\<rparr>"
  let ?r = "case catch (item t) of
                   Some cb \<Rightarrow> invoke cb (Caught (id' t) x) ?w0
                 | None \<Rightarrow> (None, console_error HandlerUncaught (taskDesc (item t)) x ?w0)"
  have "keeps {} ?w0 (snd ?r)"
    using keeps_eqs(1)[of ?w0] by (simp add: console_error_def split: option.splits)
  then have "keeps {} w (snd ?r)" by simp
  from keeps_advance[OF this, of "shouldWait t"] True show ?thesis
    by (simp add: onCatch_def)
qed

lemma keeps_set_stage [simp]:
  "keeps D (set_stage k st w) w' = keeps D w w'"
  "keeps D w (set_stage k st w') = keeps D w w'"
  by (simp_all add: set_stage_def)

lemma keeps_settle:
  "keeps {id' (ch_task (chains w ! k))} w (settle k s w)"
proof (cases "k < length (chains w) \<and> ch_stage (chains w ! k) = Pending")
  case False
  then have "settle k s w = w" by (auto simp: settle_def)
  then show ?thesis by simp
next
  case True
  let ?c = "chains w ! k"
  let ?wm = "set_stage k Done w"
  let ?r = "case s of Fulfils v \<Rightarrow> onFulfilled (ch_task ?c) (ch_session ?c) v ?wm
                    | Rejects x \<Rightarrow> onRejected (ch_task ?c) (ch_session ?c) x ?wm"
  have e: "settle k s w = (case ?r of (None, w') \<Rightarrow> w' | (Some e, w') \<Rightarrow> set_stage k (Thrown e) w')"
    using True by (simp add: settle_def)
  have "keeps {id' (ch_task ?c)} ?wm (snd ?r)"
    using keeps_onFulfilled[of "ch_task ?c" ?wm] keeps_onRejected[of "ch_task ?c" ?wm]
    by (simp split: settlement.splits)
  then have k: "keeps {id' (ch_task ?c)} w (snd ?r)" by simp
  obtain y w' where p: "?r = (y, w')" by (cases ?r)
  with k show ?thesis unfolding e p by (cases y) simp_all
qed

lemma keeps_catch_runs: "keeps {} w (catch_runs k w)"
proof (cases "k < length (chains w)")
  case False
  then show ?thesis by (simp add: catch_runs_def)
next
  case True
  show ?thesis
  proof (cases "ch_stage (chains w ! k)")
    case (Thrown ex)
    have "keeps {} (set_stage k Done w)
       (snd (onCatch (ch_task (chains w ! k)) (ch_session (chains w ! k)) ex (set_stage k Done w)))"
      by (rule keeps_onCatch)
    with True Thrown show ?thesis by (simp add: catch_runs_def)
  qed (use True in \<open>simp_all add: catch_runs_def\<close>)
qed

lemma keeps_fire: "keeps (looked_at x w) w (fire x w)"
proof (cases x)
  case (Submit t)
  with keeps_all(2)[of w t] show ?thesis by (simp add: looked_at_def)
next
  case (Cancel i)
  with keeps_prims(1)[of w i] show ?thesis by (simp add: looked_at_def)
next
  case ClearAll
  with keeps_prims(2)[of w] show ?thesis by (simp add: looked_at_def)
next
  case (Settles k s)
  with keeps_settle[of w k s] show ?thesis by (simp add: looked_at_def)
next
  case (CatchRuns k)
  with keeps_catch_runs[of w k] show ?thesis by (simp add: looked_at_def)
qed

text \<open>
  Hence a mark stays in the set across an input, and across any list of inputs, during
  which the session does not change (no \<^verbatim>\<open>clear\<close>), unless an entry with that identifier
  was pending at the start, was submitted on the way, or had its deferred outcome
  delivered.
\<close>

lemma mark_stays_unless_observed:
  assumes "i \<in> taskCancelSet w"
    and "sessionId (fire x w) = sessionId w"
    and "i \<notin> id' ` set (tasks w)"
    and "i \<notin> issued w (fire x w)"
    and "i \<notin> looked_at x w"
  shows "i \<in> taskCancelSet (fire x w)"
proof -
  from keepsD(3)[OF keeps_fire assms(2)]
  have "taskCancelSet w - (looked_at x w \<union> id' ` set (tasks w) \<union> issued w (fire x w))
      \<subseteq> taskCancelSet (fire x w)" .
  moreover from assms(1,3,4,5)
  have "i \<in> taskCancelSet w - (looked_at x w \<union> id' ` set (tasks w) \<union> issued w (fire x w))"
    by simp
  ultimately show ?thesis by (rule subsetD)
qed

lemma keeps_run: "keeps (observed xs w) w (run xs w)"
proof (induction xs arbitrary: w)
  case Nil
  show ?case by (simp add: run_def)
next
  case (Cons x xs)
  have "run (x # xs) w = run xs (fire x w)" by (simp add: run_def)
  with keeps_trans[OF keeps_fire[of x w] Cons.IH[of "fire x w"]] show ?case by simp
qed

lemma mark_stays_through_run:
  assumes "i \<in> taskCancelSet w"
    and "sessionId (run xs w) = sessionId w"
    and "i \<notin> id' ` set (tasks w)"
    and "i \<notin> issued w (run xs w)"
    and "i \<notin> observed xs w"
  shows "i \<in> taskCancelSet (run xs w)"
proof -
  from keepsD(3)[OF keeps_run assms(2)]
  have "taskCancelSet w - (observed xs w \<union> id' ` set (tasks w) \<union> issued w (run xs w))
      \<subseteq> taskCancelSet (run xs w)" .
  moreover from assms(1,3,4,5)
  have "i \<in> taskCancelSet w - (observed xs w \<union> id' ` set (tasks w) \<union> issued w (run xs w))"
    by simp
  ultimately show ?thesis by (rule subsetD)
qed

section \<open>The claims\<close>

subsection \<open>C1: wait-mode entries run strictly one after the other\<close>

text \<open>
  C1 says that, among wait-mode entries, the callable of entry N+1 never starts before the
  outcome of entry N has been delivered. The code does not keep this when an exception
  escapes from \<open>step\<close> into a promise handler. Four wait-mode entries: A returns a
  promise; B throws and its \<^verbatim>\<open>catch\<close> callback throws again; C returns a promise; D
  returns a value. When A settles, its handler advances to B; the exception of B's
  callback travels, through the \<^verbatim>\<open>finally\<close> block that has already started C, out of A's
  handler; the trailing \<^verbatim>\<open>.catch\<close> of A then advances the queue a second time and D
  starts, while the promise of C (entry 3) is still pending. For work items whose
  \<^verbatim>\<open>catch\<close> callbacks return, the order is kept: see \<open>one_entry_awaited\<close> and
  \<open>awaited_entry_blocks_queue\<close> above.
\<close>

theorem wait_mode_order_broken_by_escaping_exception:
  "trace (run [Submit (deferred_task ''A''), Submit (failing_task ''B''),
               Submit (deferred_task ''C''), Submit (value_task ''D'' ''d''),
               Settles 0 (Fulfils ''a''), CatchRuns 0] create)
     = [Started 1 ''A'', Started 2 ''B'', Caught 2 ''x'', Started 3 ''C'',
        ConsoleError HandlerUncaught ''A'' ''y'', Started 4 ''D'']
   \<and> map (\<lambda>c. (id' (ch_task c), ch_stage c))
         (chains (run [Submit (deferred_task ''A''), Submit (failing_task ''B''),
                       Submit (deferred_task ''C''), Submit (value_task ''D'' ''d''),
                       Settles 0 (Fulfils ''a''), CatchRuns 0] create))
     = [(1, Done), (3, Pending)]"
  by (simp add: eval_simps deferred_task_def value_task_def failing_task_def)

subsection \<open>C2: nothing of an entry is reported after a clear\<close>

text \<open>
  C2: an entry that was started before \<^verbatim>\<open>clear()\<close> and whose promise settles after it
  reports nothing, and a fresh submission after \<^verbatim>\<open>clear()\<close> runs. Here \<open>w\<close> is any
  state in which chain \<open>k\<close> is registered (every reachable state satisfies \<open>chains_ok\<close>,
  lemma \<open>reachable_chains_ok\<close>), \<^verbatim>\<open>clear()\<close> is called, and then anything may happen
  (\<open>xs\<close>). Whenever afterwards the promise settles, with a value or an error, or its
  \<^verbatim>\<open>.catch\<close> handler gets its turn, the state stays as it is but for the chain being
  marked as run; in particular the trace does not grow. An entry submitted right after
  \<^verbatim>\<open>clear()\<close> has its callable started at once.
\<close>

theorem stale_settlement_is_discarded:
  assumes "chains_ok w" and "k < length (chains w)"
  shows "settle k s (run xs (clear w)) \<in> {run xs (clear w), set_stage k Done (run xs (clear w))}
       \<and> catch_runs k (run xs (clear w)) \<in> {run xs (clear w), set_stage k Done (run xs (clear w))}
       \<and> trace (settle k s (run xs (clear w))) = trace (run xs (clear w))
       \<and> trace (catch_runs k (run xs (clear w))) = trace (run xs (clear w))
       \<and> (\<exists>suf. trace (fire (Submit t) (clear w))
             = trace w @ Started (mk_id (nextId w) (sessionId w + 1)) (taskDesc t) # suf)"
proof -
  let ?w' = "run xs (clear w)"
  note st = stale_after_clear[OF assms, of xs]
  have a: "settle k s ?w' \<in> {?w', set_stage k Done ?w'}"
    using st by (cases s) (simp_all add: settle_def stale_handlers)
  have b: "catch_runs k ?w' \<in> {?w', set_stage k Done ?w'}"
    using st by (simp add: catch_runs_def stale_handlers split: stage.splits)
  have tr: "trace (set_stage k Done ?w') = trace ?w'" by (simp add: set_stage_def)
  from a tr have a': "trace (settle k s ?w') = trace ?w'" by auto
  from b tr have b': "trace (catch_runs k ?w') = trace ?w'" by auto
  let ?i = "mk_id (nextId w) (sessionId w + 1)"
  let ?w1 = "(clear w)\<lparr>nextId := nextId w + 1, tasks := [\<lparr>id' = ?i, item = t\<rparr>], running := True\<rparr>"
  have "tasks ?w1 = \<lparr>id' = ?i, item = t\<rparr> # []" "id' \<lparr>id' = ?i, item = t\<rparr> \<notin> taskCancelSet ?w1"
    by (simp_all add: clear_def)
  from step_starts_head[OF this]
  obtain suf where "trace (snd (step ?w1)) = trace ?w1 @ Started ?i (taskDesc t) # suf"
    by auto
  moreover have "snd (addTask t (clear w)) = snd (step ?w1)"
    by (subst addTask.simps) (simp add: clear_def Let_def)
  ultimately have c: "\<exists>suf. trace (fire (Submit t) (clear w)) = trace w @ Started ?i (taskDesc t) # suf"
    by (simp add: clear_def)
  from a b a' b' c show ?thesis by blast
qed

text \<open>
  C2 at a concrete input: \<open>watched_task\<close> is in flight, \<^verbatim>\<open>clear()\<close> is called and a new
  entry is submitted and runs; the old promise then rejects and nothing is added to the
  trace.
\<close>

theorem stale_settlement_is_discarded_witness:
  "chains_ok (run [Submit watched_task] create)
   \<and> 0 < length (chains (run [Submit watched_task] create))
   \<and> trace (settle 0 (Rejects ''r'')
        (run [Submit (value_task ''N'' ''n'')] (clear (run [Submit watched_task] create))))
       = [Started 1 ''A'', Started 4 ''N'']
   \<and> trace (fire (Submit (value_task ''N'' ''n'')) (clear (run [Submit watched_task] create)))
       = [Started 1 ''A'', Started 4 ''N'']"
proof -
  let ?w = "run [Submit watched_task] create"
  have h1: "chains_ok ?w" by (rule reachable_chains_ok)
  have h2: "0 < length (chains ?w)" by (simp add: eval_simps value_task_def watched_task_def)
  have e: "trace (run [Submit (value_task ''N'' ''n'')] (clear ?w)) = [Started 1 ''A'', Started 4 ''N'']"
    by (simp add: eval_simps value_task_def watched_task_def)
  from stale_settlement_is_discarded[OF h1 h2, of "Rejects ''r''" "[Submit (value_task ''N'' ''n'')]"]
  have "trace (settle 0 (Rejects ''r'') (run [Submit (value_task ''N'' ''n'')] (clear ?w)))
          = trace (run [Submit (value_task ''N'' ''n'')] (clear ?w))" by blast
  with e h1 h2 show ?thesis by (simp add: run_def)
qed

subsection \<open>C3: cancellation of a pending or dispatched entry\<close>

text \<open>
  C3 says that an entry cancelled while it awaits its deferred outcome has all of its
  callbacks suppressed. The handlers of \<^verbatim>\<open>then\<close> do suppress them, but the trailing
  \<^verbatim>\<open>.catch\<close> handler has no cancellation check. Entry 1 (\<open>watched_task\<close>) is in flight and is cancelled; entry 2
  throws and its \<^verbatim>\<open>catch\<close> callback throws \<open>''y''\<close>. When the promise of entry 1 is
  fulfilled, its \<^verbatim>\<open>resolve\<close> callback is skipped, the queue advances to entry 2, the
  exception \<open>''y''\<close> escapes into the handler of entry 1, and the \<^verbatim>\<open>catch\<close> callback of
  the cancelled entry 1 is called with it.
\<close>

theorem cancelled_entry_still_reports_handler_exception:
  "trace (run [Submit watched_task, Submit (failing_task ''B''), Cancel 1,
               Settles 0 (Fulfils ''a''), CatchRuns 0] create)
     = [Started 1 ''A'', Started 2 ''B'', Caught 2 ''x'', Caught 1 ''y'']"
  by (simp add: eval_simps failing_task_def watched_task_def)

subsection \<open>C4: which handler reports a rejection\<close>

text \<open>
  C4 says that for a rejection exactly one of the failure callback, the generic-error
  callback and the diagnostic is invoked, and that with both callbacks given only the
  failure callback fires. This fails when the failure callback throws: the trailing
  \<^verbatim>\<open>.catch\<close> handler then passes the exception to the generic-error callback as well.
\<close>

theorem raising_failure_callback_reaches_catch:
  "trace (run [Submit guarded_task, Settles 0 (Rejects ''r''), CatchRuns 0] create)
     = [Started 1 ''R'', Rejected 1 ''r'', Caught 1 ''boom'']"
  by (simp add: eval_simps guarded_task_def)

text \<open>
  C4 as amended: in the live session and for an entry that is not cancelled, the
  rejection handler makes exactly one report, \<open>rejection_report\<close> (the failure callback
  if present, else the generic-error callback if present, else the diagnostic with the
  description), and removes the entry from the running set; if the callback it called
  returned, the handler then advances the queue (wait mode) or ends; if that callback
  threw, the handler ends with the exception, and the trailing \<^verbatim>\<open>.catch\<close> handler makes
  exactly one more report, \<open>handler_report\<close> (the generic-error callback if present, else
  a diagnostic with the description).
\<close>

theorem rejection_reports_once:
  assumes "sessionId w = session" and "id' t \<notin> taskCancelSet w"
  shows "onRejected t session reason w =
           (case rejection_callback t of
              None \<Rightarrow>
                if shouldWait t then step (delivered t (rejection_report t reason) w)
                else (None, delivered t (rejection_report t reason) w)
            | Some cb \<Rightarrow>
                (case cb_raises cb of
                   None \<Rightarrow>
                     if shouldWait t then step (delivered t (rejection_report t reason) w)
                     else (None, delivered t (rejection_report t reason) w)
                 | Some x \<Rightarrow> (Some x, delivered t (rejection_report t reason) w)))
         \<and> onCatch t session x w =
           (case catch (item t) of
              None \<Rightarrow>
                if shouldWait t then step (delivered t (handler_report t x) w)
                else (None, delivered t (handler_report t x) w)
            | Some cb \<Rightarrow>
                (case cb_raises cb of
                   None \<Rightarrow>
                     if shouldWait t then step (delivered t (handler_report t x) w)
                     else (None, delivered t (handler_report t x) w)
                 | Some y \<Rightarrow> (Some y, delivered t (handler_report t x) w)))"
  using assms
  by (auto simp: onRejected_def onCatch_def checkAndClearCanceled_def rejection_callback_def
      rejection_report_def handler_report_def delivered_def invoke_def console_error_def
      split: option.splits)

text \<open>
  C4 as amended, at a concrete input: the promise of \<open>handled_task\<close>, which has both
  callbacks, rejects; only the failure callback is called.
\<close>

theorem rejection_reports_once_witness:
  "sessionId (run [Submit handled_task] create) = 0
   \<and> id' \<lparr>id' = 1, item = handled_task\<rparr> \<notin> taskCancelSet (run [Submit handled_task] create)
   \<and> trace (snd (onRejected \<lparr>id' = 1, item = handled_task\<rparr> 0 ''r'' (run [Submit handled_task] create)))
       = [Started 1 ''R'', Rejected 1 ''r'']"
proof -
  let ?w = "run [Submit handled_task] create"
  let ?t = "\<lparr>id' = 1, item = handled_task\<rparr>"
  have h1: "sessionId ?w = 0" by (simp add: eval_simps handled_task_def)
  have h2: "id' ?t \<notin> taskCancelSet ?w" by (simp add: eval_simps handled_task_def)
  have cb: "rejection_callback ?t = Some (Callback None)" "shouldWait ?t"
    "rejection_report ?t ''r'' = Rejected 1 ''r''"
    by (simp_all add: rejection_callback_def rejection_report_def shouldWait_def handled_task_def)
  from rejection_reports_once[OF h1 h2, of "''r''" "''r''"] cb
  have "onRejected ?t 0 ''r'' ?w = step (delivered ?t (Rejected 1 ''r'') ?w)" by simp
  moreover have "trace (snd (step (delivered ?t (Rejected 1 ''r'') ?w)))
      = [Started 1 ''R'', Rejected 1 ''r'']"
    by (simp add: delivered_def eval_simps handled_task_def)
  ultimately show ?thesis using h1 h2 by simp
qed

subsection \<open>C5: the identifiers of one session\<close>

text \<open>
  C5 says that the identifiers returned within one session are strictly increasing and
  pairwise distinct, after any number of earlier \<^verbatim>\<open>clear()\<close> calls. The shift by the
  session counter loses the high bits: after 31 calls of \<^verbatim>\<open>clear()\<close> the first three
  identifiers are \<open>2 ^ 31\<close>, \<open>0\<close> and \<open>2 ^ 31\<close> again.
\<close>

theorem identifiers_repeat_after_31_clears:
  "fst (addTask (value_task ''n'' ''v'') (run (replicate 31 ClearAll) create)) = Inr 2147483648
   \<and> fst (addTask (value_task ''n'' ''v'')
        (run (replicate 31 ClearAll @ [Submit (value_task ''n'' ''v'')]) create)) = Inr 0
   \<and> fst (addTask (value_task ''n'' ''v'')
        (run (replicate 31 ClearAll @ [Submit (value_task ''n'' ''v''), Submit (value_task ''n'' ''v'')])
           create)) = Inr 2147483648"
  using run_clears[of 31 "[]"]
  by (simp add: run_clears eval_simps value_task_def)

subsection \<open>C6: cancellation requested while the callable runs\<close>

text \<open>
  C6 says that when the callable of an entry requests the cancellation of its own
  identifier and then returns a value, the completion callback is not invoked. The
  synchronous path of \<open>handleFunctionTask\<close> checks the session only, never the
  cancellation set (the promise handlers do check it): the callback is called, and the
  mark stays in the set.
\<close>

theorem self_cancel_still_resolves:
  "trace (run [Submit self_cancelling] create) = [Started 1 ''self'', Resolved 1 ''v'']
   \<and> 1 \<in> taskCancelSet (run [Submit self_cancelling] create)"
  by (simp add: eval_simps self_cancelling_def)

subsection \<open>C7: the liveness query\<close>



subsection \<open>C8: a callable that throws\<close>

text \<open>
  C8: when the callable of an entry throws \<open>e\<close> and the session is still the one the
  entry was started in, exactly one report is made, \<open>sync_report\<close> (the generic-error
  callback if present, else the diagnostic with the description; never the failure
  callback), the entry leaves the running set, and the queue advances from there: if a
  next entry is pending and not cancelled, its callable starts right after the report.
  This holds whether or not the generic-error callback itself throws.
\<close>

theorem sync_raise_reported_and_queue_advances:
  assumes "call_task t w = (Raises e, w1)" and "sessionId w1 = sessionId w"
  shows "snd (handleFunctionTask t w) = snd (step (delivered t (sync_report t e) w1))
         \<and> (\<forall>x. sync_report t e \<noteq> Rejected (id' t) x)
         \<and> (\<forall>n rest. tasks w1 = n # rest \<and> id' n \<notin> taskCancelSet w1 \<longrightarrow>
               (\<exists>suf. trace (snd (handleFunctionTask t w)) =
                  trace w1 @ sync_report t e # Started (id' n) (taskDesc (item n)) # suf))"
proof -
  let ?w2 = "delivered t (sync_report t e) w1"
  have a: "snd (handleFunctionTask t w) = snd (step ?w2)"
    using assms
    by (simp add: handleFunctionTask_unfold catch_block_def invoke_def console_error_def
        sync_report_def delivered_def trace_running_swap split: option.splits)
  have b: "\<exists>suf. trace (snd (handleFunctionTask t w)) =
                  trace w1 @ sync_report t e # Started (id' n) (taskDesc (item n)) # suf"
    if "tasks w1 = n # rest" "id' n \<notin> taskCancelSet w1" for n rest
  proof -
    from that have "tasks ?w2 = n # rest" "id' n \<notin> taskCancelSet ?w2"
      by (simp_all add: delivered_def)
    from step_starts_head[OF this] a show ?thesis by (simp add: delivered_def)
  qed
  have c: "sync_report t e \<noteq> Rejected (id' t) x" for x
    by (simp add: sync_report_def split: option.splits)
  from a b c show ?thesis by blast
qed

text \<open>
  C8 at a concrete input: entry 1 throws (and so does its \<^verbatim>\<open>catch\<close> callback), entry 2
  is pending; entry 2 starts right after the report.
\<close>

theorem sync_raise_reported_and_queue_advances_witness:
  "fst (call_task \<lparr>id' = 1, item = failing_task ''B''\<rparr>
          (started \<lparr>id' = 1, item = failing_task ''B''\<rparr> [\<lparr>id' = 2, item = value_task ''N'' ''n''\<rparr>]))
     = Raises ''x''
   \<and> sessionId (snd (call_task \<lparr>id' = 1, item = failing_task ''B''\<rparr>
          (started \<lparr>id' = 1, item = failing_task ''B''\<rparr> [\<lparr>id' = 2, item = value_task ''N'' ''n''\<rparr>])))
     = sessionId (started \<lparr>id' = 1, item = failing_task ''B''\<rparr> [\<lparr>id' = 2, item = value_task ''N'' ''n''\<rparr>])
   \<and> trace (snd (handleFunctionTask \<lparr>id' = 1, item = failing_task ''B''\<rparr>
          (started \<lparr>id' = 1, item = failing_task ''B''\<rparr> [\<lparr>id' = 2, item = value_task ''N'' ''n''\<rparr>])))
     = [Started 1 ''B'', Caught 1 ''x'', Started 2 ''N'']"
proof -
  let ?t = "\<lparr>id' = 1, item = failing_task ''B''\<rparr>"
  let ?w = "started ?t [\<lparr>id' = 2, item = value_task ''N'' ''n''\<rparr>]"
  have h1: "fst (call_task ?t ?w) = Raises ''x''"
    and h2: "sessionId (snd (call_task ?t ?w)) = sessionId ?w"
    by (simp_all add: call_task_def started_def create_def value_task_def failing_task_def)
  from h1 have h1': "call_task ?t ?w = (Raises ''x'', snd (call_task ?t ?w))"
    by (metis prod.collapse)
  from sync_raise_reported_and_queue_advances[OF h1' h2]
  have "snd (handleFunctionTask ?t ?w)
          = snd (step (delivered ?t (sync_report ?t ''x'') (snd (call_task ?t ?w))))" by blast
  moreover have "trace (snd (step (delivered ?t (sync_report ?t ''x'') (snd (call_task ?t ?w)))))
      = [Started 1 ''B'', Caught 1 ''x'', Started 2 ''N'']"
    by (simp add: delivered_def sync_report_def call_task_def started_def eval_simps value_task_def failing_task_def)
  ultimately show ?thesis using h1 h2 by simp
qed

subsection \<open>C9: how long a cancellation mark stays\<close>

text \<open>
  C9 says that a mark is removed the moment the scheduler observes it, so that no
  cancelled identifier stays in the set for good. The set is looked at only when an entry
  is popped and when a deferred outcome is delivered, so a mark can outlive all the work
  there is: below, entry 1 has finished, is cancelled, another entry runs, the manager is
  idle, and 1 is still in the set. When a mark stays is the content of
  \<open>mark_stays_unless_observed\<close> and \<open>mark_stays_through_run\<close> above.
\<close>

theorem cancel_mark_of_finished_entry_persists:
  "1 \<in> taskCancelSet (run [Submit (value_task ''A'' ''a''), Cancel 1,
                            Submit (value_task ''B'' ''b'')] create)
   \<and> tasks (run [Submit (value_task ''A'' ''a''), Cancel 1,
                  Submit (value_task ''B'' ''b'')] create) = []
   \<and> chains (run [Submit (value_task ''A'' ''a''), Cancel 1,
                   Submit (value_task ''B'' ''b'')] create) = []
   \<and> \<not> running (run [Submit (value_task ''A'' ''a''), Cancel 1,
                       Submit (value_task ''B'' ''b'')] create)
   \<and> trace (run [Submit (value_task ''A'' ''a''), Cancel 1,
                  Submit (value_task ''B'' ''b'')] create)
       = [Started 1 ''A'', Started 2 ''B'']"
  by (simp add: eval_simps value_task_def)

text \<open>
  C9 as amended: a mark is removed at the two places where the scheduler looks at it.
  When the entry at the head of the queue is marked, \<open>step\<close> drops the entry and the
  mark and goes on with the rest of the queue. When the deferred outcome of a marked
  entry is delivered in the live session, with a value or with an error, the handler
  drops the mark, reports nothing, and advances the queue if the entry was in wait mode.
  In both cases the state that the scheduler continues from, \<open>unmarked\<close>, no longer has
  the mark.
\<close>

theorem cancel_mark_removed_when_observed:
  "(tasks w = t # ts \<and> id' t \<in> taskCancelSet w \<longrightarrow>
      step w = step (unmarked t (w\<lparr>tasks := ts\<rparr>)))
   \<and> (sessionId w = session \<and> id' t \<in> taskCancelSet w \<longrightarrow>
        onFulfilled t session v w = (if shouldWait t then step (unmarked t w) else (None, unmarked t w))
      \<and> onRejected t session x w = (if shouldWait t then step (unmarked t w) else (None, unmarked t w)))
   \<and> id' t \<notin> taskCancelSet (unmarked t w)
   \<and> trace (unmarked t w) = trace w"
proof -
  have a: "step w = step (unmarked t (w\<lparr>tasks := ts\<rparr>))"
    if "tasks w = t # ts" "id' t \<in> taskCancelSet w"
    using that by (subst step.simps) (simp add: checkAndClearCanceled_def unmarked_def)
  have b: "onFulfilled t session v w = (if shouldWait t then step (unmarked t w) else (None, unmarked t w))"
    "onRejected t session x w = (if shouldWait t then step (unmarked t w) else (None, unmarked t w))"
    if "sessionId w = session" "id' t \<in> taskCancelSet w"
    using that by (simp_all add: onFulfilled_def onRejected_def checkAndClearCanceled_def unmarked_def)
  have c: "id' t \<notin> taskCancelSet (unmarked t w)" "trace (unmarked t w) = trace w"
    by (simp_all add: unmarked_def)
  from a b c show ?thesis by blast
qed

text \<open>
  C9 as amended, at concrete inputs: entry 2 is cancelled while pending behind entry 1,
  and is dropped with its mark when \<open>step\<close> reaches it; entry 1 (\<open>watched_task\<close>) is
  cancelled while in flight, and its mark is dropped when its promise is fulfilled.
\<close>

theorem cancel_mark_removed_when_observed_witness:
  "tasks ((run [Submit (deferred_task ''A''), Submit (value_task ''B'' ''b''), Cancel 2] create))
     = \<lparr>id' = 2, item = value_task ''B'' ''b''\<rparr> # []
   \<and> 2 \<in> taskCancelSet (run [Submit (deferred_task ''A''), Submit (value_task ''B'' ''b''), Cancel 2] create)
   \<and> taskCancelSet (snd (step (run [Submit (deferred_task ''A''), Submit (value_task ''B'' ''b''),
                                      Cancel 2] create))) = {}
   \<and> trace (snd (step (run [Submit (deferred_task ''A''), Submit (value_task ''B'' ''b''),
                             Cancel 2] create))) = [Started 1 ''A'']
   \<and> sessionId (run [Submit watched_task, Cancel 1] create) = 0
   \<and> 1 \<in> taskCancelSet (run [Submit watched_task, Cancel 1] create)
   \<and> taskCancelSet (snd (onFulfilled \<lparr>id' = 1, item = watched_task\<rparr> 0 ''a''
        (run [Submit watched_task, Cancel 1] create))) = {}
   \<and> trace (snd (onFulfilled \<lparr>id' = 1, item = watched_task\<rparr> 0 ''a''
        (run [Submit watched_task, Cancel 1] create))) = [Started 1 ''A'']"
proof -
  let ?w = "run [Submit (deferred_task ''A''), Submit (value_task ''B'' ''b''), Cancel 2] create"
  let ?b = "\<lparr>id' = 2, item = value_task ''B'' ''b''\<rparr>"
  let ?u = "run [Submit watched_task, Cancel 1] create"
  let ?a = "\<lparr>id' = 1, item = watched_task\<rparr>"
  have h1: "tasks ?w = ?b # []" and h2: "id' ?b \<in> taskCancelSet ?w"
    by (simp_all add: eval_simps deferred_task_def value_task_def watched_task_def)
  have h3: "sessionId ?u = 0" and h4: "id' ?a \<in> taskCancelSet ?u"
    by (simp_all add: eval_simps deferred_task_def value_task_def watched_task_def)
  have sw: "shouldWait ?a" by (simp add: shouldWait_def deferred_task_def value_task_def watched_task_def)
  from cancel_mark_removed_when_observed[of ?w ?b "[]"] h1 h2
  have s1: "step ?w = step (unmarked ?b (?w\<lparr>tasks := []\<rparr>))" by blast
  from cancel_mark_removed_when_observed[of ?u ?a _ 0 "''a''"] h3 h4 sw
  have s2: "onFulfilled ?a 0 ''a'' ?u = step (unmarked ?a ?u)" by simp
  have e1: "taskCancelSet (snd (step (unmarked ?b (?w\<lparr>tasks := []\<rparr>)))) = {}"
    "trace (snd (step (unmarked ?b (?w\<lparr>tasks := []\<rparr>)))) = [Started 1 ''A'']"
    by (simp_all add: unmarked_def eval_simps deferred_task_def value_task_def watched_task_def)
  have e2: "taskCancelSet (snd (step (unmarked ?a ?u))) = {}"
    "trace (snd (step (unmarked ?a ?u))) = [Started 1 ''A'']"
    by (simp_all add: unmarked_def eval_simps deferred_task_def value_task_def watched_task_def)
  from h1 h2 h3 h4 e1 e2 show ?thesis unfolding s1 s2 by simp
qed

subsection \<open>C10: a clear while the callable runs\<close>

text \<open>
  C10: when \<^verbatim>\<open>clear()\<close> is called while the callable of an entry runs (the session
  after the call differs from the one before) and the callable then returns a value or
  throws, \<open>handleFunctionTask\<close> ends in exactly the state the callable left and lets no
  exception out: no callback and no diagnostic, nothing is removed from the running set,
  and the queue is not advanced.
\<close>

theorem clear_during_callable_skips_completion:
  assumes "call_task t w = (res, w1)" and "res \<noteq> Deferred" and "sessionId w1 \<noteq> sessionId w"
  shows "handleFunctionTask t w = (None, w1)"
  using assms
  by (cases res) (simp_all add: handleFunctionTask_unfold try_resolve_def catch_block_def)

text \<open>
  C10 at a concrete input: \<open>restarting_task\<close> calls \<^verbatim>\<open>clear()\<close>, adds X (which starts
  at once in the new session and returns a promise) and Y (which waits behind X), and
  returns a value. Its \<^verbatim>\<open>resolve\<close> callback is not called, X (identifier 4) stays in
  the running set and Y (identifier 6) stays pending.
\<close>

theorem clear_during_callable_skips_completion_witness:
  "fst (call_task \<lparr>id' = 1, item = restarting_task\<rparr> (started \<lparr>id' = 1, item = restarting_task\<rparr> []))
     \<noteq> Deferred
   \<and> sessionId (snd (call_task \<lparr>id' = 1, item = restarting_task\<rparr>
                       (started \<lparr>id' = 1, item = restarting_task\<rparr> [])))
       \<noteq> sessionId (started \<lparr>id' = 1, item = restarting_task\<rparr> [])
   \<and> fst (handleFunctionTask \<lparr>id' = 1, item = restarting_task\<rparr>
            (started \<lparr>id' = 1, item = restarting_task\<rparr> [])) = None
   \<and> trace (snd (handleFunctionTask \<lparr>id' = 1, item = restarting_task\<rparr>
                   (started \<lparr>id' = 1, item = restarting_task\<rparr> [])))
       = [Started 1 ''old'', Started 4 ''X'']
   \<and> map id' (tasks (snd (handleFunctionTask \<lparr>id' = 1, item = restarting_task\<rparr>
                             (started \<lparr>id' = 1, item = restarting_task\<rparr> []))))
       = [6]
   \<and> runningTasks (snd (handleFunctionTask \<lparr>id' = 1, item = restarting_task\<rparr>
                          (started \<lparr>id' = 1, item = restarting_task\<rparr> []))) 4
       \<noteq> None"
proof -
  let ?t = "\<lparr>id' = 1, item = restarting_task\<rparr>"
  let ?w = "started ?t []"
  have ev: "trace (snd (call_task ?t ?w)) = [Started 1 ''old'', Started 4 ''X'']"
    "map id' (tasks (snd (call_task ?t ?w))) = [6]"
    "runningTasks (snd (call_task ?t ?w)) 4 \<noteq> None"
    "sessionId (snd (call_task ?t ?w)) = 1"
    "fst (call_task ?t ?w) = Returns ''v''"
    by (simp_all add: call_task_def started_def eval_simps restarting_task_def
        deferred_task_def value_task_def)
  have s0: "sessionId ?w = 0" by (simp add: started_def create_def)
  have h1: "fst (call_task ?t ?w) \<noteq> Deferred" using ev(5) by simp
  have h2: "sessionId (snd (call_task ?t ?w)) \<noteq> sessionId ?w" using ev(4) s0 by simp
  from clear_during_callable_skips_completion[OF prod.collapse[symmetric] h1 h2]
  have "handleFunctionTask ?t ?w = (None, snd (call_task ?t ?w))" .
  with ev h1 h2 show ?thesis by simp
qed

end
